theory Spec2Isabelle
  imports Complex_Main "HOL-Library.Sublist" "HOL-Library.AList"
begin

section \<open>Strings and the string operations of the source\<close>

text \<open>
  Python's \<^verbatim>\<open>str\<close> is modelled as \<^typ>\<open>string\<close>: a list of characters, each
  one code point below 256.  The operations of this section are the two forms of
  \<^verbatim>\<open>str.replace\<close> the source calls; \<^verbatim>\<open>str.strip\<close>, \<^verbatim>\<open>in\<close> and the regular
  expressions follow with the functions that use them.
\<close>

definition is_space :: "char \<Rightarrow> bool" where
  \<comment> \<open>\<^verbatim>\<open>\s\<close> of a str pattern and \<^verbatim>\<open>str.isspace\<close>, on the code points below 256:
      TAB..CR, FS..US, space, NEL, NBSP.\<close>
  "is_space c =
     (let n = (of_char c :: nat)
      in (9 \<le> n \<and> n \<le> 13) \<or> (28 \<le> n \<and> n \<le> 32) \<or> n = 133 \<or> n = 160)"

definition is_quote :: "char \<Rightarrow> bool" where
  \<comment> \<open>the character class \<^verbatim>\<open>["\x27]\<close>\<close>
  "is_quote c = (c = CHR 0x22 \<or> c = CHR 0x27)"

definition newline :: char where
  "newline = CHR 0x0A"

definition backslash :: char where
  "backslash = CHR 0x5C"

definition dquote :: char where
  "dquote = CHR 0x22"

fun replace_first :: "string \<Rightarrow> string \<Rightarrow> string \<Rightarrow> string" where
  \<comment> \<open>\<^verbatim>\<open>s.replace(old, new, 1)\<close>: the leftmost occurrence only\<close>
  "replace_first old new [] = (if old = [] then new else [])"
| "replace_first old new (c # cs) =
     (if prefix old (c # cs) then new @ drop (length old) (c # cs)
      else c # replace_first old new cs)"

fun replace_char :: "char \<Rightarrow> string \<Rightarrow> string \<Rightarrow> string" where
  \<comment> \<open>\<^verbatim>\<open>s.replace(old, new)\<close> for a one-character \<^verbatim>\<open>old\<close>: every occurrence\<close>
  "replace_char old new [] = []"
| "replace_char old new (c # cs) =
     (if c = old then new @ replace_char old new cs else c # replace_char old new cs)"

section \<open>code_executor.py: the input detector\<close>

text \<open>
  \<^verbatim>\<open>_detect_inputs\<close> runs \<^verbatim>\<open>re.finditer\<close> with the pattern
  \<^verbatim>\<open>input\s*\(\s*(?:f?["\x27](.*?)["\x27])?\s*\)\<close>.
  The matcher below follows the backtracking search of that pattern at one start
  position.  The two greedy \<^verbatim>\<open>\s*\<close> before \<^verbatim>\<open>\(\<close> and before the optional
  group, and the one before \<^verbatim>\<open>\)\<close>, are each followed by a token that is not white
  space, so only their longest run can succeed.  The optional group is tried first
  (greedy \<^verbatim>\<open>?\<close>); inside it \<^verbatim>\<open>(.*?)\<close> is lazy: the shortest run of
  non-newline characters after which a quote and \<^verbatim>\<open>\s*\)\<close> follow.
\<close>

definition close_paren :: "string \<Rightarrow> string option" where
  \<comment> \<open>\<^verbatim>\<open>\s*\)\<close>: what is left after the closing parenthesis\<close>
  "close_paren s =
     (case dropWhile is_space s of
        [] \<Rightarrow> None
      | c # r \<Rightarrow> if c = CHR 0x29 then Some r else None)"

fun lazy_body :: "string \<Rightarrow> string \<Rightarrow> (string \<times> string) option" where
  \<comment> \<open>\<^verbatim>\<open>(.*?)["\x27]\s*\)\<close>: group 1 collected so far, and the text ahead\<close>
  "lazy_body acc [] = None"
| "lazy_body acc (c # cs) =
     (case (if is_quote c then close_paren cs else None) of
        Some r \<Rightarrow> Some (acc, r)
      | None \<Rightarrow> if c = newline then None else lazy_body (acc @ [c]) cs)"

definition literal_arg :: "string \<Rightarrow> (string \<times> string) option" where
  \<comment> \<open>the group \<^verbatim>\<open>f?["\x27](.*?)["\x27]\<close> with the \<^verbatim>\<open>\s*\)\<close> that closes the call\<close>
  "literal_arg a =
     (case a of
        [] \<Rightarrow> None
      | x # r \<Rightarrow>
          if x = CHR ''f'' \<and> r \<noteq> [] \<and> is_quote (hd r) then lazy_body [] (tl r)
          else if is_quote x then lazy_body [] r
          else None)"

definition match_input :: "string \<Rightarrow> (string \<times> string option \<times> string) option" where
  \<comment> \<open>one match at the start of \<open>s\<close>: group 0, group 1 (None when the group did not
      take part), and the text after the match\<close>
  "match_input s =
     (if \<not> prefix ''input'' s then None
      else case dropWhile is_space (drop 5 s) of
        [] \<Rightarrow> None
      | c # r \<Rightarrow>
          if c \<noteq> CHR 0x28 then None
          else let a = dropWhile is_space r in
            (case literal_arg a of
               Some (g, rest) \<Rightarrow> Some (take (length s - length rest) s, Some g, rest)
             | None \<Rightarrow>
                 (case a of
                    [] \<Rightarrow> None
                  | d # rest \<Rightarrow>
                      if d = CHR 0x29
                      then Some (take (length s - length rest) s, None, rest)
                      else None)))"

definition prompt_of :: "string option \<Rightarrow> string" where
  \<comment> \<open>\<^verbatim>\<open>m.group(1) if m.group(1) else "Enter value"\<close>\<close>
  "prompt_of g = (case g of None \<Rightarrow> ''Enter value'' | Some p \<Rightarrow> if p = [] then ''Enter value'' else p)"

lemma close_paren_length: "close_paren s = Some r \<Longrightarrow> length r < length s"
proof -
  assume a: "close_paren s = Some r"
  then obtain c where "dropWhile is_space s = c # r"
    by (auto simp: close_paren_def split: list.splits if_splits)
  then have "length (dropWhile is_space s) = Suc (length r)" by simp
  moreover have "length (dropWhile is_space s) \<le> length s" by (rule length_dropWhile_le)
  ultimately show ?thesis by simp
qed

lemma lazy_body_length: "lazy_body acc s = Some (g, r) \<Longrightarrow> length r < length s"
proof (induction s arbitrary: acc)
  case Nil
  then show ?case by simp
next
  case (Cons c cs)
  show ?case
  proof (cases "if is_quote c then close_paren cs else None")
    case None
    with Cons.prems have "lazy_body (acc @ [c]) cs = Some (g, r)"
      by (simp split: if_splits)
    from Cons.IH [OF this] show ?thesis by simp
  next
    case (Some r')
    with Cons.prems have "r' = r" by simp
    with Some have "close_paren cs = Some r" by (simp split: if_splits)
    from close_paren_length [OF this] show ?thesis by simp
  qed
qed

lemma literal_arg_length:
  assumes "literal_arg a = Some (g, r)"
  shows "length r < length a"
proof (cases a)
  case Nil
  with assms show ?thesis by (simp add: literal_arg_def)
next
  case (Cons x t)
  with assms have "lazy_body [] (tl t) = Some (g, r) \<or> lazy_body [] t = Some (g, r)"
    by (simp add: literal_arg_def split: if_splits)
  then have "length r < length (tl t) \<or> length r < length t"
    by (auto dest: lazy_body_length)
  with Cons show ?thesis by auto
qed

lemma match_input_length:
  assumes "match_input s = Some (full, g, rest)"
  shows "length rest < length s"
proof -
  from assms have p: "prefix ''input'' s"
    by (simp add: match_input_def split: if_splits)
  from assms p obtain r where r: "dropWhile is_space (drop 5 s) = CHR 0x28 # r"
    by (auto simp: match_input_def split: list.splits if_splits)
  have "length (dropWhile is_space (drop 5 s)) \<le> length (drop 5 s)"
    by (rule length_dropWhile_le)
  with r have l1: "length r < length s" by simp
  have l2: "length (dropWhile is_space r) \<le> length r" by (rule length_dropWhile_le)
  show ?thesis
  proof (cases "literal_arg (dropWhile is_space r)")
    case (Some gr)
    with assms p r have "literal_arg (dropWhile is_space r) = Some (the g, rest)"
      by (cases gr) (auto simp: match_input_def Let_def)
    from literal_arg_length [OF this] l1 l2 show ?thesis by simp
  next
    case None
    with assms p r have "dropWhile is_space r = CHR 0x29 # rest"
      by (auto simp: match_input_def Let_def split: list.splits if_splits)
    then have "length (dropWhile is_space r) = Suc (length rest)" by simp
    with l1 l2 show ?thesis by simp
  qed
qed

function detect_from :: "string \<Rightarrow> (string \<times> string) list" where
  \<comment> \<open>\<^verbatim>\<open>re.finditer\<close>: leftmost matches, the scan resuming where a match ended\<close>
  "detect_from [] = []"
| "detect_from (c # cs) =
     (case match_input (c # cs) of
        None \<Rightarrow> detect_from cs
      | Some (full, g, rest) \<Rightarrow> (full, prompt_of g) # detect_from rest)"
  by pat_completeness auto
termination
  by (relation "measure length") (auto dest: match_input_length)

definition detect_inputs :: "string \<Rightarrow> (string \<times> string) list" where
  \<comment> \<open>\<^verbatim>\<open>CodeExecutor._detect_inputs\<close>\<close>
  "detect_inputs code = detect_from code"

function detect_spans :: "nat \<Rightarrow> string \<Rightarrow> (nat \<times> string \<times> string) list" where
  \<comment> \<open>\<^verbatim>\<open>re.finditer\<close> again, each match with \<^verbatim>\<open>m.start()\<close>; \<open>i\<close> is the position of the
      text still to scan\<close>
  "detect_spans i [] = []"
| "detect_spans i (c # cs) =
     (case match_input (c # cs) of
        None \<Rightarrow> detect_spans (Suc i) cs
      | Some (full, g, rest) \<Rightarrow> (i, full, prompt_of g) # detect_spans (i + length full) rest)"
  by pat_completeness auto
termination
  by (relation "measure (\<lambda>(i, s). length s)") (auto dest: match_input_length)

section \<open>code_executor.py: the input resolver\<close>

definition escape_value :: "string \<Rightarrow> string" where
  \<comment> \<open>\<^verbatim>\<open>value.replace("\\", "\\\\").replace('"', '\\"')\<close>\<close>
  "escape_value v =
     replace_char dquote [backslash, dquote] (replace_char backslash [backslash, backslash] v)"

definition quoted :: "string \<Rightarrow> string" where
  \<comment> \<open>the f-string \<^verbatim>\<open>f'"{escaped}"'\<close>\<close>
  "quoted v = [dquote] @ escape_value v @ [dquote]"

definition esc_char :: "char \<Rightarrow> string" where
  \<comment> \<open>the escaping the specification asks for: a backslash before each backslash and
      each double quote\<close>
  "esc_char c = (if c = backslash \<or> c = dquote then [backslash, c] else [c])"

definition replace_inputs :: "string \<Rightarrow> string list \<Rightarrow> string" where
  \<comment> \<open>\<^verbatim>\<open>CodeExecutor._replace_inputs\<close>: the loop over
      \<^verbatim>\<open>zip(self._detect_inputs(code), values)\<close>, each step one
      \<^verbatim>\<open>result.replace(full_match, ..., 1)\<close> on the running text\<close>
  "replace_inputs code vals =
     foldl (\<lambda>result ((full_match, _), v). replace_first full_match (quoted v) result)
       code (zip (detect_inputs code) vals)"

section \<open>code_executor.py: the executor and its environment\<close>

text \<open>
  What \<^verbatim>\<open>execute\<close> does to the outside is recorded as a trace of events, in the
  order of the calls.  What the outside answers is given by the fields of a
  \<open>world\<close>, each a function of the trace so far: the answer of a call may depend on
  everything that happened before it.
\<close>

datatype event =
    is_Asked: Asked string "string option"
      \<comment> \<open>\<^verbatim>\<open>self.input_callback(prompt)\<close> and what it returned (None: cancel)\<close>
  | is_Wrote: Wrote string string
      \<comment> \<open>the file at the path was opened for writing and the text written\<close>
  | is_WriteFailed: WriteFailed string
      \<comment> \<open>opening or writing the file at the path raised\<close>
  | is_Ran: Ran "string list" string "string option" "(string \<times> string) list"
      \<comment> \<open>\<^verbatim>\<open>subprocess.run\<close>: argv, cwd, input, env\<close>
  | is_MadeDirs: MadeDirs string
      \<comment> \<open>\<^verbatim>\<open>os.makedirs(path, exist_ok=True)\<close> returned\<close>
  | is_Posted: Posted string "(string \<times> string) list"
      \<comment> \<open>\<^verbatim>\<open>requests.post\<close> to the chat endpoint: model, messages as (role, content)\<close>
  | is_Printed: Printed string
      \<comment> \<open>a line printed by the CLI, without its colour codes\<close>
  | is_PrintedCode: PrintedCode string
      \<comment> \<open>\<^verbatim>\<open>print_code(code)\<close>\<close>
  | is_PrintedResult: PrintedResult "bool \<times> string \<times> string \<times> real"
      \<comment> \<open>\<^verbatim>\<open>print_result(success, stdout, stderr, elapsed)\<close>\<close>

type_synonym trace = "event list"

type_synonym callback = "trace \<Rightarrow> string \<Rightarrow> string option"

datatype proc_outcome =
    Completed int string string
      \<comment> \<open>\<^verbatim>\<open>subprocess.run\<close> returned: returncode, stdout, stderr\<close>
  | TimeoutExpired
      \<comment> \<open>it raised \<^verbatim>\<open>subprocess.TimeoutExpired\<close>\<close>
  | Raised string
      \<comment> \<open>it raised any other \<^verbatim>\<open>Exception\<close> \<open>e\<close>; the text is \<^verbatim>\<open>str(e)\<close>\<close>

datatype http_outcome =
    Answered string
      \<comment> \<open>\<^verbatim>\<open>r.json().get("message", {}).get("content", "")\<close>\<close>
  | ConnectionError
      \<comment> \<open>\<^verbatim>\<open>requests.post\<close> raised \<^verbatim>\<open>requests.ConnectionError\<close>\<close>
  | Failed string
      \<comment> \<open>any other \<^verbatim>\<open>Exception\<close> \<open>e\<close> of the request or of reading the answer;
          the text is \<^verbatim>\<open>str(e)\<close>\<close>

record world =
  open_write :: "trace \<Rightarrow> string \<Rightarrow> string \<Rightarrow> string option"
    \<comment> \<open>\<^verbatim>\<open>with open(path, "w", encoding="utf-8") as f: f.write(text)\<close>:
        None when it succeeds, \<^verbatim>\<open>str(e)\<close> of the exception when it raises\<close>
  makedirs :: "trace \<Rightarrow> string \<Rightarrow> string option"
    \<comment> \<open>\<^verbatim>\<open>os.makedirs(path, exist_ok=True)\<close>: None, or \<^verbatim>\<open>str(e)\<close> when it raises\<close>
  subprocess_run ::
    "trace \<Rightarrow> string list \<Rightarrow> string \<Rightarrow> string option \<Rightarrow> (string \<times> string) list \<Rightarrow> int
       \<Rightarrow> proc_outcome"
    \<comment> \<open>argv, cwd, input, env, timeout\<close>
  time_time :: "trace \<Rightarrow> real"
  os_environ :: "(string \<times> string) list"
  post_chat :: "trace \<Rightarrow> string \<Rightarrow> (string \<times> string) list \<Rightarrow> http_outcome"
    \<comment> \<open>the request of \<^verbatim>\<open>chat\<close>: model, messages\<close>

record executor =
  timeout :: int
  python_path :: string
  last_code :: "string option"
  last_output :: "string option"
  last_error :: "string option"
  last_returncode :: "int option"
  work_dir :: string
  input_callback :: "callback option"

type_synonym exec_result = "bool \<times> string \<times> string \<times> real"

fun str_nat :: "nat \<Rightarrow> string" where
  "str_nat n =
     (if n < 10 then [char_of (48 + n)] else str_nat (n div 10) @ [char_of (48 + n mod 10)])"

definition str_int :: "int \<Rightarrow> string" where
  \<comment> \<open>\<^verbatim>\<open>str\<close> of an integer, as the f-string renders \<^verbatim>\<open>{self.timeout}\<close>\<close>
  "str_int i = (if i < 0 then CHR ''-'' # str_nat (nat (- i)) else str_nat (nat i))"

definition os_path_join :: "string \<Rightarrow> string \<Rightarrow> string" where
  \<comment> \<open>\<^verbatim>\<open>posixpath.join(a, b)\<close>\<close>
  "os_path_join a b =
     (if prefix ''/'' b then b
      else if a = [] \<or> last a = CHR ''/'' then a @ b
      else a @ ''/'' @ b)"

definition safe_env :: "world \<Rightarrow> (string \<times> string) list" where
  \<comment> \<open>\<^verbatim>\<open>CodeExecutor._safe_env\<close>\<close>
  "safe_env W =
     AList.update ''PYTHONUTF8'' ''1''
       (AList.update ''PYTHONIOENCODING'' ''utf-8''
         (AList.update ''PYTHONDONTWRITEBYTECODE'' ''1'' (os_environ W)))"

fun ask_all :: "callback \<Rightarrow> (string \<times> string) list \<Rightarrow> string list \<Rightarrow> trace
                 \<Rightarrow> string list option \<times> trace" where
  \<comment> \<open>lines 59 to 64 of \<^verbatim>\<open>execute\<close>: the loop over the detected inputs; None is the
      early return on cancel\<close>
  "ask_all cb [] vals tr = (Some vals, tr)"
| "ask_all cb ((full_match, prompt) # rest) vals tr =
     (case cb tr prompt of
        None \<Rightarrow> (None, tr @ [Asked prompt None])
      | Some v \<Rightarrow> ask_all cb rest (vals @ [v]) (tr @ [Asked prompt (Some v)]))"

datatype resolved = Cancel | Code string

definition resolve_inputs :: "executor \<Rightarrow> string \<Rightarrow> string option \<Rightarrow> trace \<Rightarrow> resolved \<times> trace"
  where
  \<comment> \<open>lines 57 to 65 of \<^verbatim>\<open>execute\<close>\<close>
  "resolve_inputs ex code input_data tr =
     (let inputs = detect_inputs code in
      case input_callback ex of
        None \<Rightarrow> (Code code, tr)
      | Some cb \<Rightarrow>
          if inputs \<noteq> [] \<and> input_data = None
          then (case ask_all cb inputs [] tr of
                  (None, tr') \<Rightarrow> (Cancel, tr')
                | (Some vals, tr') \<Rightarrow> (Code (replace_inputs code vals), tr'))
          else (Code code, tr))"

definition timeout_message :: "executor \<Rightarrow> string" where
  \<comment> \<open>\<^verbatim>\<open>f"Execution timed out ({self.timeout}s)"\<close>\<close>
  "timeout_message ex = ''Execution timed out ('' @ str_int (timeout ex) @ ''s)''"

definition run_code :: "world \<Rightarrow> executor \<Rightarrow> string \<Rightarrow> string option \<Rightarrow> trace
                         \<Rightarrow> exec_result \<times> executor \<times> trace" where
  \<comment> \<open>lines 72 to 104 of \<^verbatim>\<open>execute\<close>: the \<^verbatim>\<open>try\<close> block and its handlers\<close>
  "run_code W ex code_file input_data tr =
     (let start_time = time_time W tr;
          argv = [python_path ex, code_file];
          outcome = subprocess_run W tr argv (work_dir ex) input_data (safe_env W) (timeout ex);
          tr' = tr @ [Ran argv (work_dir ex) input_data (safe_env W)];
          elapsed = time_time W tr' - start_time
      in case outcome of
           Completed returncode out err \<Rightarrow>
             ((returncode = 0, out, err, elapsed),
              ex\<lparr>last_output := Some out, last_error := Some err,
                 last_returncode := Some returncode\<rparr>,
              tr')
         | TimeoutExpired \<Rightarrow>
             ((False, [], timeout_message ex, elapsed),
              ex\<lparr>last_error := Some (timeout_message ex), last_returncode := Some (- 1)\<rparr>,
              tr')
         | Raised e \<Rightarrow>
             ((False, [], e, elapsed),
              ex\<lparr>last_error := Some e, last_returncode := Some (- 1)\<rparr>,
              tr'))"

definition code_file_of :: "executor \<Rightarrow> string" where
  \<comment> \<open>\<^verbatim>\<open>os.path.join(self.work_dir, "run_code.py")\<close>\<close>
  "code_file_of ex = os_path_join (work_dir ex) ''run_code.py''"

definition execute :: "world \<Rightarrow> executor \<Rightarrow> string \<Rightarrow> string option \<Rightarrow> trace
                        \<Rightarrow> (string + exec_result) \<times> executor \<times> trace" where
  \<comment> \<open>\<^verbatim>\<open>CodeExecutor.execute\<close>.  \<open>Inr\<close> is the returned tuple; \<open>Inl\<close> is an exception
      that leaves \<^verbatim>\<open>execute\<close>, with its text.\<close>
  "execute W ex code input_data tr =
     (let ex1 = ex\<lparr>last_code := Some code\<rparr> in
      case resolve_inputs ex1 code input_data tr of
        (Cancel, tr1) \<Rightarrow> (Inr (False, [], ''Cancelled by user'', 0), ex1, tr1)
      | (Code code', tr1) \<Rightarrow>
          (case open_write W tr1 (code_file_of ex1) code' of
             Some e \<Rightarrow> (Inl e, ex1, tr1 @ [WriteFailed (code_file_of ex1)])
           | None \<Rightarrow>
               (case run_code W ex1 (code_file_of ex1) input_data
                       (tr1 @ [Wrote (code_file_of ex1) code']) of
                  (r, ex2, tr2) \<Rightarrow> (Inr r, ex2, tr2))))"

definition new_executor :: "int \<Rightarrow> string \<Rightarrow> string \<Rightarrow> executor" where
  \<comment> \<open>\<^verbatim>\<open>CodeExecutor.__init__\<close>: the timeout, \<^verbatim>\<open>python_path or sys.executable\<close>, and the
      directory \<^verbatim>\<open>tempfile.mkdtemp\<close> made\<close>
  "new_executor t py dir =
     \<lparr>timeout = t, python_path = py, last_code = None, last_output = None,
      last_error = None, last_returncode = None, work_dir = dir, input_callback = None\<rparr>"

definition set_input_callback :: "executor \<Rightarrow> callback \<Rightarrow> executor" where
  "set_input_callback ex cb = ex\<lparr>input_callback := Some cb\<rparr>"

section \<open>code_executor.py: saving code\<close>

definition os_path_dirname :: "string \<Rightarrow> string" where
  \<comment> \<open>\<^verbatim>\<open>posixpath.dirname\<close>: the text up to the last slash; trailing slashes are dropped
      from it unless it is made of slashes only\<close>
  "os_path_dirname p =
     (let head = rev (dropWhile (\<lambda>c. c \<noteq> CHR ''/'') (rev p)) in
      if head \<noteq> [] \<and> \<not> list_all (\<lambda>c. c = CHR ''/'') head
      then rev (dropWhile (\<lambda>c. c = CHR ''/'') (rev head))
      else head)"

definition os_makedirs :: "world \<Rightarrow> trace \<Rightarrow> string \<Rightarrow> string option" where
  \<comment> \<open>\<^verbatim>\<open>os.makedirs(path, exist_ok=True)\<close>.  For the empty path \<^verbatim>\<open>mkdir("")\<close> raises
      FileNotFoundError whatever the file system holds; for any other path the world
      answers.\<close>
  "os_makedirs W tr path =
     (if path = [] then Some (''[Errno 2] No such file or directory: '' @ [CHR 0x27, CHR 0x27])
      else makedirs W tr path)"

definition save_code :: "world \<Rightarrow> string \<Rightarrow> string \<Rightarrow> trace \<Rightarrow> (bool \<times> string) \<times> trace" where
  \<comment> \<open>\<^verbatim>\<open>CodeExecutor.save_code\<close>: both calls stand inside the \<^verbatim>\<open>try\<close>, and the handler
      returns \<^verbatim>\<open>(False, str(e))\<close>\<close>
  "save_code W code filepath tr =
     (case os_makedirs W tr (os_path_dirname filepath) of
        Some e \<Rightarrow> ((False, e), tr)
      | None \<Rightarrow>
          (let tr1 = tr @ [MadeDirs (os_path_dirname filepath)] in
           case open_write W tr1 filepath code of
             Some e \<Rightarrow> ((False, e), tr1 @ [WriteFailed filepath])
           | None \<Rightarrow> ((True, ''Saved to '' @ filepath), tr1 @ [Wrote filepath code])))"

definition touches :: "string \<Rightarrow> event \<Rightarrow> bool" where
  "touches path e = (case e of Wrote p c \<Rightarrow> p = path | WriteFailed p \<Rightarrow> p = path | _ \<Rightarrow> False)"

definition file_content :: "trace \<Rightarrow> string \<Rightarrow> string option" where
  \<comment> \<open>what a read of the path returns after the trace: the text of the last write to it, if
      that write succeeded\<close>
  "file_content tr path =
     (let es = filter (touches path) tr in
      if es = [] then None
      else case last es of Wrote p c \<Rightarrow> Some c | _ \<Rightarrow> None)"

section \<open>agent.py: the text helpers\<close>

definition fence :: string where
  \<comment> \<open>three backticks\<close>
  "fence = [CHR 0x60, CHR 0x60, CHR 0x60]"

definition strip :: "string \<Rightarrow> string" where
  \<comment> \<open>\<^verbatim>\<open>str.strip()\<close>\<close>
  "strip s = rev (dropWhile is_space (rev (dropWhile is_space s)))"

fun contains :: "string \<Rightarrow> string \<Rightarrow> bool" where
  \<comment> \<open>\<^verbatim>\<open>pat in s\<close>\<close>
  "contains pat [] = (pat = [])"
| "contains pat (c # cs) = (prefix pat (c # cs) \<or> contains pat cs)"

fun split_first :: "string \<Rightarrow> string \<Rightarrow> (string \<times> string) option" where
  \<comment> \<open>the text before and the text after the leftmost occurrence of \<open>pat\<close>\<close>
  "split_first pat [] = (if pat = [] then Some ([], []) else None)"
| "split_first pat (c # cs) =
     (if prefix pat (c # cs) then Some ([], drop (length pat) (c # cs))
      else case split_first pat cs of
             None \<Rightarrow> None
           | Some (before, after) \<Rightarrow> Some (c # before, after))"

lemma split_first_length: "split_first pat s = Some (b, a) \<Longrightarrow> length a \<le> length s"
  by (induction s arbitrary: b) (auto split: if_splits option.splits)

function remove_think_blocks :: "string \<Rightarrow> string" where
  \<comment> \<open>\<^verbatim>\<open>re.sub(r"<think>.*?</think>\s*", "", text, flags=re.DOTALL)\<close>\<close>
  "remove_think_blocks [] = []"
| "remove_think_blocks (c # cs) =
     (if prefix ''<think>'' (c # cs)
      then (case split_first ''</think>'' (drop 7 (c # cs)) of
              None \<Rightarrow> c # remove_think_blocks cs
            | Some (inside, after) \<Rightarrow> remove_think_blocks (dropWhile is_space after))
      else c # remove_think_blocks cs)"
  by pat_completeness auto
termination
proof (relation "measure length")
  show "wf (measure length)" by simp
next
  fix c cs
  show "(cs, c # cs) \<in> measure length" by simp
next
  fix c cs x2 x y
  assume "prefix ''<think>'' (c # cs)"
     and "split_first ''</think>'' (drop 7 (c # cs)) = Some x2" and "(x, y) = x2"
  then have "split_first ''</think>'' (drop 7 (c # cs)) = Some (x, y)" by simp
  from split_first_length [OF this] have "length y \<le> length cs" by simp
  moreover have "length (dropWhile is_space y) \<le> length y" by (rule length_dropWhile_le)
  ultimately show "(dropWhile is_space y, c # cs) \<in> measure length" by simp
next
  fix c cs
  show "(cs, c # cs) \<in> measure length" by simp
qed

definition remove_open_think :: "string \<Rightarrow> string" where
  \<comment> \<open>\<^verbatim>\<open>re.sub(r"<think>.*", "", text, flags=re.DOTALL)\<close>\<close>
  "remove_open_think s =
     (case split_first ''<think>'' s of None \<Rightarrow> s | Some (before, after) \<Rightarrow> before)"

definition strip_think :: "string \<Rightarrow> string" where
  "strip_think text = strip (remove_open_think (remove_think_blocks text))"

definition fenced_at :: "string \<Rightarrow> string \<Rightarrow> string option" where
  \<comment> \<open>one match, at the start of \<open>s\<close>, of \<open>opener\<close> followed by \<^verbatim>\<open>\s*\n(.*?)\<close> and a fence,
      with DOTALL; the result is group 1.  The greedy \<^verbatim>\<open>\s*\<close> backs off to the last
      newline of the white space after the opener; the lazy group ends at the first
      fence after it.\<close>
  "fenced_at opener s =
     (if \<not> prefix opener s then None
      else let t = drop (length opener) s;
               run = takeWhile is_space t;
               tail = dropWhile is_space t
           in if newline \<notin> set run then None
              else case split_first fence tail of
                     None \<Rightarrow> None
                   | Some (body, after) \<Rightarrow>
                       Some (rev (takeWhile (\<lambda>c. c \<noteq> newline) (rev run)) @ body))"

fun search_fenced :: "string \<Rightarrow> string \<Rightarrow> string option" where
  \<comment> \<open>\<^verbatim>\<open>re.search\<close> of that pattern: the leftmost start that matches\<close>
  "search_fenced opener [] = fenced_at opener []"
| "search_fenced opener (c # cs) =
     (case fenced_at opener (c # cs) of
        Some g \<Rightarrow> Some g
      | None \<Rightarrow> search_fenced opener cs)"

definition looks_like_code :: "string \<Rightarrow> bool" where
  "looks_like_code cleaned =
     (contains ''def '' cleaned \<or> contains ''print('' cleaned \<or> contains ''import '' cleaned
      \<or> contains ''for '' cleaned \<or> contains ''class '' cleaned \<or> contains ''='' cleaned)"

definition strip_open_fence :: "string \<Rightarrow> string" where
  \<comment> \<open>\<^verbatim>\<open>re.sub(r"^```python\s*\n?", "", cleaned)\<close>\<close>
  "strip_open_fence s =
     (if prefix (fence @ ''python'') s then dropWhile is_space (drop 9 s) else s)"

definition closing_fence :: "string \<Rightarrow> bool" where
  \<comment> \<open>\<^verbatim>\<open>\n?```\s*$\<close> matches at the start of \<open>s\<close>\<close>
  "closing_fence s =
     (let t = (if prefix [newline] s \<and> prefix fence (tl s) then tl s else s)
      in prefix fence t \<and> list_all is_space (drop 3 t))"

fun strip_close_fence :: "string \<Rightarrow> string" where
  \<comment> \<open>\<^verbatim>\<open>re.sub(r"\n?```\s*$", "", cleaned)\<close>: a match runs to the end of the text\<close>
  "strip_close_fence [] = []"
| "strip_close_fence (c # cs) =
     (if closing_fence (c # cs) then [] else c # strip_close_fence cs)"

definition extract_code :: "string \<Rightarrow> string option" where
  "extract_code text0 =
     (let text = strip_think text0 in
      case search_fenced (fence @ ''python'') text of
        Some g \<Rightarrow> Some (strip g)
      | None \<Rightarrow>
          (case search_fenced fence text of
             Some g \<Rightarrow> Some (strip g)
           | None \<Rightarrow>
               (let cleaned = strip text in
                if cleaned \<noteq> [] \<and> looks_like_code cleaned
                then Some (strip (strip_close_fence (strip_open_fence cleaned)))
                else None)))"

definition truthy :: "string option \<Rightarrow> bool" where
  \<comment> \<open>\<^verbatim>\<open>if code:\<close> for a value that is a str or None\<close>
  "truthy c = (c \<noteq> None \<and> c \<noteq> Some [])"

section \<open>agent.py: the chat request and the repair loop\<close>

definition SYSTEM_PROMPT :: string where
  "SYSTEM_PROMPT =
     ''You are an expert Python programmer. '' @
     ''Output ONLY valid Python code. '' @
     ''Do NOT include any explanation, markdown formatting, or code fences. '' @
     ''Do NOT include '' @ fence @ '' markers. '' @
     ''Just output the raw Python code that can be executed directly.''"

definition chat_messages :: "string \<Rightarrow> (string \<times> string) list \<Rightarrow> (string \<times> string) list" where
  \<comment> \<open>the message list \<^verbatim>\<open>chat\<close> builds: the system prompt, \<^verbatim>\<open>conversation[-10:]\<close>, the
      prompt; a message is (role, content)\<close>
  "chat_messages prompt conversation =
     [(''system'', SYSTEM_PROMPT)]
     @ (if conversation \<noteq> [] then drop (length conversation - 10) conversation else [])
     @ [(''user'', prompt)]"

definition chat :: "world \<Rightarrow> string \<Rightarrow> string \<Rightarrow> (string \<times> string) list \<Rightarrow> trace
                     \<Rightarrow> (bool \<times> string) \<times> trace" where
  "chat W prompt model conversation tr =
     (let messages = chat_messages prompt conversation;
          tr' = tr @ [Posted model messages]
      in case post_chat W tr model messages of
           Answered resp \<Rightarrow> ((True, resp), tr')
         | ConnectionError \<Rightarrow>
             ((False, ''Cannot connect to Ollama. Run '' @ [CHR 0x27] @ ''ollama serve''
                      @ [CHR 0x27] @ '' first.''), tr')
         | Failed e \<Rightarrow> ((False, e), tr'))"

definition make_fix_prompt :: "string \<Rightarrow> string \<Rightarrow> string" where
  \<comment> \<open>the f-string of lines 282 to 286; \<open>e\<close> is the stderr of the failed run\<close>
  "make_fix_prompt e code =
     ''The code produced an error:'' @ [newline] @ fence @ [newline] @ take 500 e @ [newline]
     @ fence @ [newline, newline]
     @ ''Original code:'' @ [newline] @ fence @ ''python'' @ [newline] @ code @ [newline]
     @ fence @ [newline, newline]
     @ ''Fix the error. Output the complete corrected Python code only.''"

record main_vars =
  conversation :: "(string \<times> string) list"
  main_last_code :: "string option"
  cur_code :: string
  cur_result :: exec_result
  fix_attempt :: nat
  main_executor :: executor

datatype loop_end =
    Condition_false
      \<comment> \<open>the \<^verbatim>\<open>while\<close> condition became false\<close>
  | Break
      \<comment> \<open>one of the two \<^verbatim>\<open>break\<close> statements\<close>
  | Raised_out string
      \<comment> \<open>\<^verbatim>\<open>executor.execute\<close> raised; nothing in \<^verbatim>\<open>main\<close> catches it\<close>

definition auto_fix_line :: "nat \<Rightarrow> nat \<Rightarrow> string" where
  "auto_fix_line i n = ''Auto-fixing (attempt '' @ str_nat i @ ''/'' @ str_nat n @ '')...''"

function repair_loop :: "world \<Rightarrow> string \<Rightarrow> nat \<Rightarrow> main_vars \<Rightarrow> trace
                           \<Rightarrow> loop_end \<times> main_vars \<times> trace" where
  \<comment> \<open>lines 279 to 307 of \<^verbatim>\<open>main\<close>: the \<^verbatim>\<open>while\<close> loop.  \<open>cur_result\<close> holds
      \<^verbatim>\<open>s, o, e, t\<close>.\<close>
  "repair_loop W model max_fix_attempts v tr =
     (if \<not> fst (cur_result v) \<and> fix_attempt v < max_fix_attempts then
        (let v1 = v\<lparr>fix_attempt := fix_attempt v + 1\<rparr>;
             tr1 = tr @ [Printed (auto_fix_line (fix_attempt v1) max_fix_attempts)];
             fix_prompt = make_fix_prompt (fst (snd (snd (cur_result v1)))) (cur_code v1);
             fix = chat W fix_prompt model (conversation v1) tr1;
             fix_ok = fst (fst fix);
             fix_resp = snd (fst fix);
             tr2 = snd fix
         in if fix_ok then
              (let fix_code = extract_code fix_resp in
               if truthy fix_code then
                 (let v2 = v1\<lparr>cur_code := the fix_code, main_last_code := fix_code,
                               conversation := conversation v1
                                 @ [(''user'', fix_prompt), (''assistant'', fix_resp)]\<rparr>;
                      tr3 = tr2 @ [Printed ''Fixed code:'', PrintedCode (the fix_code),
                                    Printed ''Re-executing...''];
                      run = execute W (main_executor v2) (the fix_code) None tr3;
                      v3 = v2\<lparr>main_executor := fst (snd run)\<rparr>
                  in case fst run of
                       Inl err \<Rightarrow> (Raised_out err, v3, snd (snd run))
                     | Inr r \<Rightarrow>
                         repair_loop W model max_fix_attempts (v3\<lparr>cur_result := r\<rparr>)
                           (snd (snd run) @ [PrintedResult r]))
               else (Break, v1, tr2 @ [Printed ''Could not extract code from fix.'']))
            else (Break, v1, tr2 @ [Printed ''Could not generate fix.'']))
      else (Condition_false, v, tr))"
  by pat_completeness auto
termination
  by (relation "measure (\<lambda>(W, model, max_fix_attempts, v, tr). max_fix_attempts - fix_attempt v)")
     auto

definition handle_request :: "world \<Rightarrow> string \<Rightarrow> nat \<Rightarrow> bool \<Rightarrow> string \<Rightarrow> main_vars \<Rightarrow> trace
                                \<Rightarrow> string option \<times> main_vars \<times> trace" where
  \<comment> \<open>lines 251 to 313 of \<^verbatim>\<open>main\<close>: one request that is not a command.  The first
      component is the exception that leaves \<^verbatim>\<open>main\<close>, if any.\<close>
  "handle_request W model max_fix_attempts auto_execute user_input v tr =
     (let sent = chat W user_input model (conversation v) tr;
          ok = fst (fst sent);
          response = snd (fst sent);
          tr1 = snd sent
      in if \<not> ok then (None, v, tr1 @ [Printed (''Error: '' @ response)])
         else
           (let extended = conversation v @ [(''user'', user_input), (''assistant'', response)];
                v1 = v\<lparr>conversation :=
                         (if length extended > 20 then drop (length extended - 20) extended
                          else extended)\<rparr>;
                code = extract_code response
            in if truthy code then
                 (let v2 = v1\<lparr>main_last_code := code, cur_code := the code\<rparr>;
                      tr2 = tr1 @ [Printed (''Here'' @ [CHR 0x27] @ ''s the code:''),
                                    PrintedCode (the code)]
                  in if auto_execute then
                       (let run = execute W (main_executor v2) (the code) None
                                    (tr2 @ [Printed ''Executing...'']);
                            v3 = v2\<lparr>main_executor := fst (snd run)\<rparr>
                        in case fst run of
                             Inl err \<Rightarrow> (Some err, v3, snd (snd run))
                           | Inr r \<Rightarrow>
                               (case repair_loop W model max_fix_attempts
                                       (v3\<lparr>cur_result := r, fix_attempt := 0\<rparr>)
                                       (snd (snd run) @ [PrintedResult r]) of
                                  (Raised_out err, v4, tr4) \<Rightarrow> (Some err, v4, tr4)
                                | (ending, v4, tr4) \<Rightarrow>
                                    (None, v4,
                                     if \<not> fst (cur_result v4) \<and> fix_attempt v4 \<ge> max_fix_attempts
                                     then tr4 @ [Printed ''Max fix attempts reached.'']
                                     else tr4)))
                     else (None, v2, tr2))
               else (None, v1, tr1 @ [Printed (strip_think response)])))"


definition initial_vars :: "executor \<Rightarrow> main_vars" where
  \<comment> \<open>the variables of \<^verbatim>\<open>main\<close> when its loop starts; those not yet assigned hold
      placeholders that are overwritten before they are read\<close>
  "initial_vars ex =
     \<lparr>conversation = [], main_last_code = None, cur_code = [], cur_result = (True, [], [], 0),
      fix_attempt = 0, main_executor = ex\<rparr>"

fun run_requests :: "world \<Rightarrow> string \<Rightarrow> nat \<Rightarrow> bool \<Rightarrow> string list \<Rightarrow> main_vars \<Rightarrow> trace
                      \<Rightarrow> string option \<times> main_vars \<times> trace" where
  \<comment> \<open>the \<^verbatim>\<open>while True\<close> loop of \<^verbatim>\<open>main\<close> on a sequence of inputs that are requests, not
      commands; an exception ends it\<close>
  "run_requests W model max_fix_attempts auto_execute [] v tr = (None, v, tr)"
| "run_requests W model max_fix_attempts auto_execute (user_input # rest) v tr =
     (case handle_request W model max_fix_attempts auto_execute user_input v tr of
        (Some err, v', tr') \<Rightarrow> (Some err, v', tr')
      | (None, v', tr') \<Rightarrow> run_requests W model max_fix_attempts auto_execute rest v' tr')"

definition posted_prompts :: "trace \<Rightarrow> string list" where
  \<comment> \<open>the prompts of the chat requests of a trace, in order: the content of the last
      message of each\<close>
  "posted_prompts tr =
     concat (map (\<lambda>e. case e of Posted m msgs \<Rightarrow> [snd (last msgs)] | _ \<Rightarrow> []) tr)"

section \<open>Sessions in which every attempt fails\<close>

definition always_nonzero_exit :: "world \<Rightarrow> bool" where
  \<comment> \<open>every process runs to completion and exits with a code other than 0\<close>
  "always_nonzero_exit W =
     (\<forall>tr argv cwd inp env t. \<exists>rc out err.
        subprocess_run W tr argv cwd inp env t = Completed rc out err \<and> rc \<noteq> 0)"

definition always_writes :: "world \<Rightarrow> bool" where
  "always_writes W = (\<forall>tr path text. open_write W tr path text = None)"

definition always_generates :: "world \<Rightarrow> bool" where
  \<comment> \<open>every chat request is answered, with a response that holds extractable code\<close>
  "always_generates W =
     (\<forall>tr m msgs. \<exists>resp. post_chat W tr m msgs = Answered resp \<and> truthy (extract_code resp))"

definition never_cancels :: "executor \<Rightarrow> bool" where
  "never_cancels ex =
     (case input_callback ex of None \<Rightarrow> True | Some cb \<Rightarrow> \<forall>tr p. \<exists>v. cb tr p = Some v)"

section \<open>Example environments\<close>

definition steady_world :: "string option \<Rightarrow> proc_outcome \<Rightarrow> http_outcome \<Rightarrow> world" where
  \<comment> \<open>a world that answers every call of one kind the same way; the clock advances by
      one second per event\<close>
  "steady_world w p h =
     \<lparr>open_write = (\<lambda>tr path text. w), makedirs = (\<lambda>tr path. None),
      subprocess_run = (\<lambda>tr argv cwd inp env t. p), time_time = (\<lambda>tr. real (length tr)),
      os_environ = [], post_chat = (\<lambda>tr m msgs. h)\<rparr>"

definition cli_executor :: "callback \<Rightarrow> executor" where
  "cli_executor cb = set_input_callback (new_executor 30 ''/usr/bin/python3'' ''/tmp/agent_exec_a1'') cb"

definition failing_world :: world where
  \<comment> \<open>every process exits with code 1, every chat request is answered with code\<close>
  "failing_world = steady_world None (Completed 1 [] ''NameError'') (Answered ''print(x)'')"

definition cancel_world :: world where
  \<comment> \<open>every chat request is answered with code that asks for input\<close>
  "cancel_world = steady_world None (Completed 0 [] []) (Answered ''x = input()'')"

section \<open>Properties of the executor\<close>

lemma code_file_of_last_code [simp]: "code_file_of (ex\<lparr>last_code := c\<rparr>) = code_file_of ex"
  by (simp add: code_file_of_def)

lemma ask_all_trace:
  "ask_all cb inputs vals tr = (r, tr') \<Longrightarrow> \<exists>asks. tr' = tr @ asks \<and> list_all is_Asked asks"
proof (induction inputs arbitrary: vals tr)
  case Nil
  then show ?case by simp
next
  case (Cons a inputs)
  obtain m p where a: "a = (m, p)" by (cases a)
  show ?case
  proof (cases "cb tr p")
    case None
    with Cons.prems a show ?thesis by auto
  next
    case (Some v)
    with Cons.prems a
    have "ask_all cb inputs (vals @ [v]) (tr @ [Asked p (Some v)]) = (r, tr')" by simp
    from Cons.IH [OF this] obtain asks
      where "tr' = (tr @ [Asked p (Some v)]) @ asks" "list_all is_Asked asks" by blast
    then have "tr' = tr @ (Asked p (Some v) # asks) \<and> list_all is_Asked (Asked p (Some v) # asks)"
      by simp
    then show ?thesis by blast
  qed
qed

lemma ask_all_cancel:
  "(m, p) \<in> set inputs \<Longrightarrow> \<forall>t. cb t p = None \<Longrightarrow> fst (ask_all cb inputs vals tr) = None"
  by (induction inputs arbitrary: vals tr) (auto split: option.splits)

text \<open>
  C1.  When \<^verbatim>\<open>execute\<close> reaches the subprocess stage (the inputs were resolved without
  a cancel and the code file was written), its result follows the outcome of
  \<^verbatim>\<open>subprocess.run\<close>: a process that ran to completion gives the success flag
  \<open>returncode = 0\<close> with the captured stdout and stderr; a timeout gives flag False, empty
  stdout, the message naming the configured seconds as stderr, and return code -1
  recorded; any other exception gives flag False, empty stdout, its text as stderr, and
  return code -1 recorded.  The elapsed time is the clock after the run minus the clock
  before it.
\<close>

theorem execute_classifies_outcome:
  fixes W :: world and ex :: executor
  defines "tr2 \<equiv> \<lambda>tr1 code'. tr1 @ [Wrote (code_file_of ex) code']"
      and "argv \<equiv> [python_path ex, code_file_of ex]"
  defines "elapsed \<equiv> \<lambda>tr1 code' input_data.
             time_time W (tr2 tr1 code' @ [Ran argv (work_dir ex) input_data (safe_env W)])
             - time_time W (tr2 tr1 code')"
  assumes "resolve_inputs (ex\<lparr>last_code := Some code\<rparr>) code input_data tr = (Code code', tr1)"
      and "open_write W tr1 (code_file_of ex) code' = None"
  shows "case subprocess_run W (tr2 tr1 code') argv (work_dir ex) input_data (safe_env W) (timeout ex) of
        Completed returncode out err \<Rightarrow>
          fst (execute W ex code input_data tr)
            = Inr (returncode = 0, out, err, elapsed tr1 code' input_data)
          \<and> last_returncode (fst (snd (execute W ex code input_data tr))) = Some returncode
      | TimeoutExpired \<Rightarrow>
          fst (execute W ex code input_data tr)
            = Inr (False, [], ''Execution timed out ('' @ str_int (timeout ex) @ ''s)'',
                   elapsed tr1 code' input_data)
          \<and> last_returncode (fst (snd (execute W ex code input_data tr))) = Some (- 1)
      | Raised e \<Rightarrow>
          fst (execute W ex code input_data tr) = Inr (False, [], e, elapsed tr1 code' input_data)
          \<and> last_returncode (fst (snd (execute W ex code input_data tr))) = Some (- 1)"
  using assms
  by (simp add: execute_def run_code_def timeout_message_def Let_def split: proc_outcome.splits)

theorem execute_classifies_outcome_witness:
  "resolve_inputs ((cli_executor (\<lambda>tr p. None))\<lparr>last_code := Some ''while True: pass''\<rparr>)
       ''while True: pass'' None [] = (Code ''while True: pass'', [])
   \<and> fst (execute (steady_world None TimeoutExpired ConnectionError) (cli_executor (\<lambda>tr p. None))
          ''while True: pass'' None [])
       = Inr (False, [], ''Execution timed out (30s)'', 1)"
proof -
  let ?ex = "cli_executor (\<lambda>tr p. None)"
  let ?W = "steady_world None TimeoutExpired ConnectionError"
  have d: "detect_inputs ''while True: pass'' = []" by code_simp
  have r: "resolve_inputs (?ex\<lparr>last_code := Some ''while True: pass''\<rparr>)
       ''while True: pass'' None [] = (Code ''while True: pass'', [])"
    by (simp add: resolve_inputs_def d cli_executor_def set_input_callback_def new_executor_def)
  have w: "open_write ?W [] (code_file_of ?ex) ''while True: pass'' = None"
    by (simp add: steady_world_def)
  have s: "str_int 30 = ''30''" by code_simp
  have t: "timeout ?ex = 30"
    by (simp add: cli_executor_def set_input_callback_def new_executor_def)
  from execute_classifies_outcome [OF r w] s t r show ?thesis
    by (simp add: steady_world_def)
qed

text \<open>
  C2.  \<^verbatim>\<open>execute\<close> does raise: the code file is opened and written before the
  \<^verbatim>\<open>try\<close> block, so when that write fails the exception leaves \<^verbatim>\<open>execute\<close>: for
  every executor, code text, input data and exception text, a call that is not cancelled
  at a prompt ends with that exception.
\<close>

theorem execute_raises_when_write_fails:
  "fst (resolve_inputs (ex\<lparr>last_code := Some code\<rparr>) code input_data tr) = Cancel
   \<or> fst (execute (W\<lparr>open_write := \<lambda>tr path text. Some e\<rparr>) ex code input_data tr) = Inl e"
proof (cases "resolve_inputs (ex\<lparr>last_code := Some code\<rparr>) code input_data tr")
  case (Pair res tr1)
  then show ?thesis by (cases res) (simp_all add: execute_def)
qed

text \<open>
  C3.  When inputs are detected, a callback is set, no input data is given, and the
  callback answers None to one of the prompts it is asked, \<^verbatim>\<open>execute\<close> returns
  \<open>(False, "", "Cancelled by user", 0)\<close>; the only events it adds to the trace are calls of
  the callback: no file is written and no process is run.  (By \<open>ask_all_cancel\<close> the third
  premise holds whenever the callback answers None to the prompt of one of the requests
  every time it is asked.)
\<close>

theorem execute_cancelled:
  assumes "detect_inputs code \<noteq> []"
      and "input_callback ex = Some cb"
      and "fst (ask_all cb (detect_inputs code) [] tr) = None"
  shows "\<exists>asks. execute W ex code None tr =
           (Inr (False, [], ''Cancelled by user'', 0), ex\<lparr>last_code := Some code\<rparr>, tr @ asks)
         \<and> list_all is_Asked asks"
proof -
  obtain tr' where a: "ask_all cb (detect_inputs code) [] tr = (None, tr')"
    using assms(3) by (cases "ask_all cb (detect_inputs code) [] tr") auto
  from ask_all_trace [OF a] obtain asks where t: "tr' = tr @ asks" "list_all is_Asked asks"
    by blast
  from assms(1,2) a have "execute W ex code None tr =
       (Inr (False, [], ''Cancelled by user'', 0), ex\<lparr>last_code := Some code\<rparr>, tr')"
    by (simp add: execute_def resolve_inputs_def)
  with t show ?thesis by blast
qed

theorem execute_cancelled_witness:
  "detect_inputs ''n = input(\"Name: \")'' = [(''input(\"Name: \")'', ''Name: '')]
   \<and> execute (steady_world None (Completed 0 [] []) ConnectionError) (cli_executor (\<lambda>tr p. None))
        ''n = input(\"Name: \")'' None []
      = (Inr (False, [], ''Cancelled by user'', 0),
         (cli_executor (\<lambda>tr p. None))\<lparr>last_code := Some ''n = input(\"Name: \")''\<rparr>,
         [Asked ''Name: '' None])"
proof -
  let ?code = "''n = input(\"Name: \")''"
  let ?ex = "cli_executor (\<lambda>tr p. None)"
  have d: "detect_inputs ?code = [(''input(\"Name: \")'', ''Name: '')]" by code_simp
  then have d0: "detect_inputs ?code \<noteq> []" by simp
  have c: "input_callback ?ex = Some (\<lambda>tr p. None)"
    by (simp add: cli_executor_def set_input_callback_def)
  have a: "fst (ask_all (\<lambda>tr p. None) (detect_inputs ?code) [] []) = None"
    by (simp add: d)
  from execute_cancelled [OF d0 c a] obtain asks where
    "execute (steady_world None (Completed 0 [] []) ConnectionError) ?ex ?code None []
       = (Inr (False, [], ''Cancelled by user'', 0), ?ex\<lparr>last_code := Some ?code\<rparr>, [] @ asks)"
    by blast
  moreover have "snd (snd (execute (steady_world None (Completed 0 [] []) ConnectionError) ?ex
                   ?code None [])) = [Asked ''Name: '' None]"
    by (simp add: execute_def resolve_inputs_def c d)
  ultimately show ?thesis using d by simp
qed

text \<open>
  C10.  When \<^verbatim>\<open>execute\<close> returns on the cancel path, the executor's \<open>last_code\<close> is the
  code just submitted, and \<open>last_output\<close>, \<open>last_error\<close> and \<open>last_returncode\<close> are what they
  were before the call.
\<close>

theorem execute_cancel_keeps_last_result:
  assumes "fst (resolve_inputs (ex\<lparr>last_code := Some code\<rparr>) code input_data tr) = Cancel"
  shows "last_code (fst (snd (execute W ex code input_data tr))) = Some code
       \<and> last_output (fst (snd (execute W ex code input_data tr))) = last_output ex
       \<and> last_error (fst (snd (execute W ex code input_data tr))) = last_error ex
       \<and> last_returncode (fst (snd (execute W ex code input_data tr))) = last_returncode ex"
  using assms
  by (cases "resolve_inputs (ex\<lparr>last_code := Some code\<rparr>) code input_data tr")
     (simp add: execute_def)

theorem execute_cancel_keeps_last_result_witness:
  "fst (resolve_inputs
         ((cli_executor (\<lambda>tr p. None))\<lparr>last_output := Some ''42'', last_error := Some [],
             last_returncode := Some 0, last_code := Some ''x = input()''\<rparr>)
         ''x = input()'' None []) = Cancel
   \<and> last_code (fst (snd (execute (steady_world None (Completed 0 [] []) ConnectionError)
         ((cli_executor (\<lambda>tr p. None))\<lparr>last_output := Some ''42'', last_error := Some [],
             last_returncode := Some 0\<rparr>)
         ''x = input()'' None []))) = Some ''x = input()''
   \<and> last_returncode (fst (snd (execute (steady_world None (Completed 0 [] []) ConnectionError)
         ((cli_executor (\<lambda>tr p. None))\<lparr>last_output := Some ''42'', last_error := Some [],
             last_returncode := Some 0\<rparr>)
         ''x = input()'' None []))) = Some 0"
proof -
  let ?ex = "(cli_executor (\<lambda>tr p. None))\<lparr>last_output := Some ''42'', last_error := Some [],
             last_returncode := Some 0\<rparr>"
  have d: "detect_inputs ''x = input()'' = [(''input()'', ''Enter value'')]" by code_simp
  have r: "fst (resolve_inputs (?ex\<lparr>last_code := Some ''x = input()''\<rparr>) ''x = input()'' None [])
             = Cancel"
    by (simp add: resolve_inputs_def d cli_executor_def set_input_callback_def)
  from execute_cancel_keeps_last_result [OF r] r show ?thesis
    by simp
qed

section \<open>Properties of the input detector\<close>

lemma detect_spans_inputs: "map snd (detect_spans i s) = detect_from s"
  by (induction i s rule: detect_spans.induct) (auto split: option.splits)

lemma close_paren_suffix: "close_paren s = Some r \<Longrightarrow> suffix r s"
proof -
  assume "close_paren s = Some r"
  then have "dropWhile is_space s = CHR 0x29 # r"
    by (auto simp: close_paren_def split: list.splits if_splits)
  then have "suffix r (dropWhile is_space s)" by (simp add: suffix_ConsI)
  then show ?thesis using suffix_dropWhile suffix_order.trans by blast
qed

lemma lazy_body_suffix: "lazy_body acc s = Some (g, r) \<Longrightarrow> suffix r s"
proof (induction s arbitrary: acc)
  case Nil
  then show ?case by simp
next
  case (Cons c cs)
  show ?case
  proof (cases "if is_quote c then close_paren cs else None")
    case None
    with Cons.prems have "lazy_body (acc @ [c]) cs = Some (g, r)"
      by (simp split: if_splits)
    from Cons.IH [OF this] show ?thesis by (simp add: suffix_ConsI)
  next
    case (Some r')
    with Cons.prems have "r' = r" by simp
    with Some have "close_paren cs = Some r" by (simp split: if_splits)
    from close_paren_suffix [OF this] show ?thesis by (simp add: suffix_ConsI)
  qed
qed

lemma literal_arg_suffix:
  assumes "literal_arg a = Some (g, r)"
  shows "suffix r a"
proof (cases a)
  case Nil
  with assms show ?thesis by (simp add: literal_arg_def)
next
  case (Cons x t)
  with assms have "lazy_body [] (tl t) = Some (g, r) \<or> lazy_body [] t = Some (g, r)"
    by (simp add: literal_arg_def split: if_splits)
  then have "suffix r (tl t) \<or> suffix r t"
    by (auto dest: lazy_body_suffix)
  moreover have "suffix (tl t) t" by (metis suffix_tl)
  ultimately have "suffix r t" using suffix_order.trans by blast
  with Cons show ?thesis by (simp add: suffix_ConsI)
qed

lemma match_input_suffix:
  assumes "match_input s = Some (full, g, rest)"
  shows "suffix rest s"
proof -
  from assms have p: "prefix ''input'' s"
    by (simp add: match_input_def split: if_splits)
  from assms p obtain r where r: "dropWhile is_space (drop 5 s) = CHR 0x28 # r"
    by (auto simp: match_input_def split: list.splits if_splits)
  have "suffix r (dropWhile is_space (drop 5 s))" using r by (simp add: suffix_ConsI)
  then have "suffix r (drop 5 s)" using suffix_dropWhile suffix_order.trans by blast
  then have s1: "suffix r s" using suffix_drop suffix_order.trans by blast
  have s2: "suffix (dropWhile is_space r) r" by (rule suffix_dropWhile)
  have "suffix rest (dropWhile is_space r)"
  proof (cases "literal_arg (dropWhile is_space r)")
    case (Some gr)
    with assms p r have "literal_arg (dropWhile is_space r) = Some (the g, rest)"
      by (cases gr) (auto simp: match_input_def Let_def)
    from literal_arg_suffix [OF this] show ?thesis .
  next
    case None
    with assms p r have "dropWhile is_space r = CHR 0x29 # rest"
      by (auto simp: match_input_def Let_def split: list.splits if_splits)
    then show ?thesis by (simp add: suffix_ConsI)
  qed
  with s1 s2 show ?thesis using suffix_order.trans by blast
qed

lemma match_input_full:
  assumes "match_input s = Some (full, g, rest)"
  shows "s = full @ rest"
proof -
  from match_input_suffix [OF assms] obtain pre where s: "s = pre @ rest"
    by (auto simp: suffix_def)
  from assms have "full = take (length s - length rest) s"
    by (auto simp: match_input_def Let_def split: if_splits list.splits option.splits)
  with s show ?thesis by simp
qed

lemma detect_spans_match:
  "(j, m, p) \<in> set (detect_spans i s) \<Longrightarrow>
     i \<le> j \<and> j - i < length s \<and> (\<exists>g rest. match_input (drop (j - i) s) = Some (m, g, rest) \<and> p = prompt_of g)"
proof (induction i s rule: detect_spans.induct)
  case (1 i)
  then show ?case by simp
next
  case (2 i c cs)
  show ?case
  proof (cases "match_input (c # cs)")
    case None
    with 2 have "Suc i \<le> j \<and> j - Suc i < length cs \<and> (\<exists>g rest. match_input (drop (j - Suc i) cs) = Some (m, g, rest) \<and> p = prompt_of g)"
      by simp
    moreover then have "j - i = Suc (j - Suc i)" by arith
    ultimately show ?thesis by auto
  next
    case (Some a)
    obtain full g rest where a: "a = (full, g, rest)" by (cases a)
    from Some a have mi: "match_input (c # cs) = Some (full, g, rest)" by simp
    from match_input_full [OF mi] have split: "c # cs = full @ rest" .
    from match_input_length [OF mi] have len: "length rest < length (c # cs)" .
    from "2.prems" mi have "(j, m, p) = (i, full, prompt_of g) \<or> (j, m, p) \<in> set (detect_spans (i + length full) rest)"
      by simp
    then show ?thesis
    proof
      assume "(j, m, p) = (i, full, prompt_of g)"
      with mi show ?thesis by auto
    next
      assume in_tl: "(j, m, p) \<in> set (detect_spans (i + length full) rest)"
      from "2.IH"(2) [OF mi refl refl in_tl]
      have ih: "i + length full \<le> j" "j - (i + length full) < length rest"
        "\<exists>g rest'. match_input (drop (j - (i + length full)) rest) = Some (m, g, rest') \<and> p = prompt_of g"
        by auto
      have "drop (j - i) (c # cs) = drop (j - (i + length full)) rest"
        using split ih(1) by (simp add: drop_append) 
      moreover have "length (c # cs) = length full + length rest"
        using split by (metis length_append)
      then have "j - i < length (c # cs)"
        using ih(1,2) by arith
      ultimately show ?thesis using ih by auto
    qed
  qed
qed


lemma not_space_paren [simp]: "\<not> is_space (CHR 0x28)" "\<not> is_space (CHR 0x29)"
  by (simp_all add: is_space_def)

lemma not_space_quote: "is_quote c \<Longrightarrow> \<not> is_space c"
  by (auto simp: is_quote_def is_space_def)

lemma dropWhile_spaces: "list_all is_space ws \<Longrightarrow> \<not> is_space c \<Longrightarrow> dropWhile is_space (ws @ c # r) = c # r"
  by (induction ws) auto

lemma close_paren_shape:
  assumes "close_paren s = Some r"
  shows "\<exists>ws. s = ws @ CHR 0x29 # r \<and> list_all is_space ws"
proof -
  from assms have d: "dropWhile is_space s = CHR 0x29 # r"
    by (auto simp: close_paren_def split: list.splits if_splits)
  have "s = takeWhile is_space s @ dropWhile is_space s" by simp
  with d have "s = takeWhile is_space s @ CHR 0x29 # r" by simp
  moreover have "list_all is_space (takeWhile is_space s)"
    by (simp add: list_all_iff) (meson set_takeWhileD)
  ultimately show ?thesis by blast
qed

lemma close_paren_stable: "list_all is_space ws \<Longrightarrow> close_paren (ws @ CHR 0x29 # r') = Some r'"
  by (simp add: close_paren_def dropWhile_spaces)

lemma close_paren_None_stable:
  assumes "\<exists>x\<in>set b. \<not> is_space x" and "close_paren (b @ r) = None"
  shows "close_paren (b @ r') = None"
proof -
  from assms(1) obtain x where x: "x \<in> set b" "\<not> is_space x" by blast
  then have a: "\<And>t. dropWhile is_space (b @ t) = dropWhile is_space b @ t"
    by (simp add: dropWhile_append1)
  from x have "dropWhile is_space b \<noteq> []" by (auto simp: dropWhile_eq_Nil_conv)
  then obtain d ds where d: "dropWhile is_space b = d # ds" by (cases "dropWhile is_space b") auto
  from assms(2) have "d \<noteq> CHR 0x29" by (simp add: close_paren_def a d split: if_splits)
  then show ?thesis by (simp add: close_paren_def a d)
qed

lemma lazy_body_stable:
  "lazy_body acc s = Some (g, r) \<Longrightarrow>
     \<exists>body. s = body @ r \<and> (\<exists>x\<in>set body. \<not> is_space x)
            \<and> (\<forall>r'. lazy_body acc (body @ r') = Some (g, r'))"
proof (induction s arbitrary: acc)
  case Nil
  then show ?case by simp
next
  case (Cons c cs)
  show ?case
  proof (cases "if is_quote c then close_paren cs else None")
    case (Some r0)
    with Cons.prems have r0: "r0 = r" "g = acc" by simp_all
    with Some have q: "is_quote c" and cp: "close_paren cs = Some r" by (simp_all split: if_splits)
    from close_paren_shape [OF cp] obtain ws where ws: "cs = ws @ CHR 0x29 # r" "list_all is_space ws"
      by blast
    let ?body = "c # ws @ [CHR 0x29]"
    have "c # cs = ?body @ r" using ws by simp
    moreover have "\<exists>x\<in>set ?body. \<not> is_space x" using q not_space_quote by auto
    moreover have "\<forall>r'. lazy_body acc (?body @ r') = Some (g, r')"
      using q ws(2) r0 by (simp add: close_paren_stable)
    ultimately show ?thesis by blast
  next
    case None
    with Cons.prems have nl: "c \<noteq> newline" and rec: "lazy_body (acc @ [c]) cs = Some (g, r)"
      by (simp_all split: if_splits)
    from Cons.IH [OF rec] obtain body where
      b: "cs = body @ r" "\<exists>x\<in>set body. \<not> is_space x"
         "\<forall>r'. lazy_body (acc @ [c]) (body @ r') = Some (g, r')" by blast
    have none: "\<And>r'. (if is_quote c then close_paren (body @ r') else None) = None"
    proof -
      fix r'
      show "(if is_quote c then close_paren (body @ r') else None) = None"
      proof (cases "is_quote c")
        case True
        with None b(1) have "close_paren (body @ r) = None" by simp
        from close_paren_None_stable [OF b(2) this] True show ?thesis by simp
      next
        case False
        then show ?thesis by simp
      qed
    qed
    have "c # cs = (c # body) @ r" using b(1) by simp
    moreover have "\<exists>x\<in>set (c # body). \<not> is_space x" using b(2) by auto
    moreover have "\<forall>r'. lazy_body acc ((c # body) @ r') = Some (g, r')"
      using none nl b(3) by simp
    ultimately show ?thesis by blast
  qed
qed

lemma literal_arg_stable:
  assumes "literal_arg a = Some (g, r)"
  shows "\<exists>body. a = body @ r \<and> body \<noteq> [] \<and> (\<forall>r'. literal_arg (body @ r') = Some (g, r'))"
proof (cases a)
  case Nil
  with assms show ?thesis by (simp add: literal_arg_def)
next
  case (Cons x t)
  show ?thesis
  proof (cases "x = CHR ''f'' \<and> t \<noteq> [] \<and> is_quote (hd t)")
    case True
    then obtain q t' where t: "t = q # t'" "is_quote q" by (cases t) auto
    with assms Cons True have "lazy_body [] t' = Some (g, r)" by (simp add: literal_arg_def)
    from lazy_body_stable [OF this] obtain body where
      b: "t' = body @ r" "\<forall>r'. lazy_body [] (body @ r') = Some (g, r')" by blast
    have "a = (x # q # body) @ r" using Cons t b(1) by simp
    moreover have "\<forall>r'. literal_arg ((x # q # body) @ r') = Some (g, r')"
      using True t b(2) by (simp add: literal_arg_def)
    ultimately show ?thesis by blast
  next
    case False
    with assms Cons have q: "is_quote x" and lb: "lazy_body [] t = Some (g, r)"
      by (auto simp: literal_arg_def split: if_splits)
    from lazy_body_stable [OF lb] obtain body where
      b: "t = body @ r" "\<forall>r'. lazy_body [] (body @ r') = Some (g, r')" by blast
    from q have nf: "x \<noteq> CHR ''f''" by (auto simp: is_quote_def)
    have "a = (x # body) @ r" using Cons b(1) by simp
    moreover have "\<forall>r'. literal_arg ((x # body) @ r') = Some (g, r')"
      using q nf b(2) by (simp add: literal_arg_def)
    ultimately show ?thesis by blast
  qed
qed

lemma match_input_stable:
  assumes "match_input s = Some (m, g, rest)"
  shows "match_input (m @ r') = Some (m, g, r')"
proof -
  from assms have p: "prefix ''input'' s"
    by (simp add: match_input_def split: if_splits)
  then obtain s5 where s5: "s = ''input'' @ s5" by (auto simp: prefix_def)
  from assms p obtain r where r: "dropWhile is_space (drop 5 s) = CHR 0x28 # r"
    by (auto simp: match_input_def split: list.splits if_splits)
  define ws1 where "ws1 = takeWhile is_space s5"
  define ws2 where "ws2 = takeWhile is_space r"
  define a where "a = dropWhile is_space r"
  have w1: "list_all is_space ws1" unfolding ws1_def
    by (simp add: list_all_iff) (meson set_takeWhileD)
  have w2: "list_all is_space ws2" unfolding ws2_def
    by (simp add: list_all_iff) (meson set_takeWhileD)
  have s5': "s5 = ws1 @ CHR 0x28 # ws2 @ a"
  proof -
    have "s5 = takeWhile is_space s5 @ dropWhile is_space s5" by simp
    also have "dropWhile is_space s5 = CHR 0x28 # r" using r s5 by simp
    also have "r = ws2 @ a" by (simp add: ws2_def a_def)
    finally show ?thesis by (simp add: ws1_def)
  qed
  have sfull: "s = m @ rest" using match_input_full [OF assms] .
  \<comment> \<open>the part of the match inside \<open>a\<close>\<close>
  have "\<exists>body. a = body @ rest \<and> body \<noteq> [] \<and> \<not> is_space (hd body)
          \<and> (\<forall>r'. (case literal_arg (body @ r') of
                       Some (g', rest') \<Rightarrow> Some (Some g', rest')
                     | None \<Rightarrow> (case body @ r' of [] \<Rightarrow> None
                                 | d # rest' \<Rightarrow> if d = CHR 0x29 then Some (None, rest') else None))
                     = Some (g, r'))"
  proof (cases "literal_arg a")
    case (Some gr)
    with assms p r have la: "literal_arg a = Some (the g, rest)" and g: "g = Some (the g)"
      by (cases gr; auto simp: match_input_def Let_def a_def)+
    from literal_arg_stable [OF la] obtain body where
      b: "a = body @ rest" "body \<noteq> []" "\<forall>r'. literal_arg (body @ r') = Some (the g, r')" by blast
    have "a \<noteq> []" using b by simp
    then have "\<not> is_space (hd a)" unfolding a_def by (metis hd_dropWhile)
    with b have "\<not> is_space (hd body)" by simp
    with b g show ?thesis by (metis (no_types, lifting) old.prod.case option.simps(5))
  next
    case None
    with assms p r have d: "a = CHR 0x29 # rest" and g: "g = None"
      by (auto simp: match_input_def Let_def a_def split: list.splits if_splits)
    have "literal_arg (CHR 0x29 # r') = None" for r'
      by (simp add: literal_arg_def is_quote_def)
    then have "\<forall>r'. (case literal_arg ([CHR 0x29] @ r') of
                       Some (g', rest') \<Rightarrow> Some (Some g', rest')
                     | None \<Rightarrow> (case [CHR 0x29] @ r' of [] \<Rightarrow> None
                                 | d # rest' \<Rightarrow> if d = CHR 0x29 then Some (None, rest') else None))
                     = Some (g, r')"
      using g by simp
    moreover have "a = [CHR 0x29] @ rest" using d by simp
    ultimately show ?thesis by (metis list.sel(1) not_Cons_self2 not_space_paren(2))
  qed
  then obtain body where
    b: "a = body @ rest" "body \<noteq> []" "\<not> is_space (hd body)"
       "\<And>r'. (case literal_arg (body @ r') of
                       Some (g', rest') \<Rightarrow> Some (Some g', rest')
                     | None \<Rightarrow> (case body @ r' of [] \<Rightarrow> None
                                 | d # rest' \<Rightarrow> if d = CHR 0x29 then Some (None, rest') else None))
                     = Some (g, r')" by blast
  have m: "m = ''input'' @ ws1 @ CHR 0x28 # ws2 @ body"
    using sfull s5 s5' b(1) by simp
  obtain b0 bs where b0: "body = b0 # bs" using b(2) by (cases body) auto
  with b(3) have nb: "\<not> is_space b0" by simp
  have d1: "dropWhile is_space (ws1 @ CHR 0x28 # ws2 @ body @ r') = CHR 0x28 # ws2 @ body @ r'"
    using w1 by (simp add: dropWhile_spaces)
  have d2: "dropWhile is_space (ws2 @ body @ r') = body @ r'"
    using w2 nb b0 by (simp add: dropWhile_spaces)
  define x where "x = m @ r'"
  have e1: "prefix ''input'' x" by (simp add: m x_def)
  have e2: "drop 5 x = ws1 @ CHR 0x28 # ws2 @ body @ r'" by (simp add: m x_def)
  have key: "match_input x =
      (case (case literal_arg (body @ r') of
               Some (g', rest') \<Rightarrow> Some (Some g', rest')
             | None \<Rightarrow> (case body @ r' of [] \<Rightarrow> None
                         | d # rest' \<Rightarrow> if d = CHR 0x29 then Some (None, rest') else None)) of
         None \<Rightarrow> None
       | Some (g', rest') \<Rightarrow> Some (take (length x - length rest') x, g', rest'))"
    by (simp add: match_input_def e1 e2 d1 d2 Let_def split: option.splits list.splits)
  have "match_input x = Some (take (length x - length r') x, g, r')"
    by (simp only: key b(4)) simp
  then show ?thesis by (simp add: x_def)
qed


lemma detect_spans_first:
  "detect_spans k s = (i, m, p) # sites \<Longrightarrow>
     k \<le> i \<and> (\<forall>j < i - k. match_input (drop j s) = None)
     \<and> (\<exists>g rest. match_input (drop (i - k) s) = Some (m, g, rest))"
proof (induction k s rule: detect_spans.induct)
  case (1 i)
  then show ?case by simp
next
  case (2 k c cs)
  show ?case
  proof (cases "match_input (c # cs)")
    case None
    with "2.prems" have "detect_spans (Suc k) cs = (i, m, p) # sites" by simp
    from "2.IH"(1) [OF None this] have ih: "Suc k \<le> i"
      "\<forall>j < i - Suc k. match_input (drop j cs) = None"
      "\<exists>g rest. match_input (drop (i - Suc k) cs) = Some (m, g, rest)" by auto
    have eq: "i - k = Suc (i - Suc k)" using ih(1) by arith
    have "\<forall>j < i - k. match_input (drop j (c # cs)) = None"
    proof (intro allI impI)
      fix j assume j: "j < i - k"
      show "match_input (drop j (c # cs)) = None"
      proof (cases j)
        case 0
        with None show ?thesis by simp
      next
        case (Suc j')
        with j eq have "j' < i - Suc k" by arith
        with ih(2) Suc show ?thesis by simp
      qed
    qed
    with ih eq show ?thesis by auto
  next
    case (Some a)
    obtain full g rest where a: "a = (full, g, rest)" by (cases a)
    with Some "2.prems" have "i = k" "m = full" by simp_all
    with Some a show ?thesis by simp
  qed
qed

text \<open>
  C6.  As stated the claim fails: for \<^verbatim>\<open>name = input(prompt)\<close> the detector returns no
  request at all.
\<close>

theorem variable_prompt_counterexample:
  "detect_inputs ''name = input(prompt)'' = []"
  by code_simp

text \<open>
  C6, amended.  Take an occurrence of \<^verbatim>\<open>input\<close>, white space, \<^verbatim>\<open>(\<close>, white space, and then
  a character that is not white space, not \<^verbatim>\<open>)\<close>, not a quote, and not \<^verbatim>\<open>f\<close> followed by a
  quote (a variable, say).  The pattern does not match at that occurrence, and no match
  of the scan starts there, whatever text stands before and after; the requests
  \<^verbatim>\<open>_detect_inputs\<close> returns are exactly the matches of the scan.
\<close>

theorem non_literal_argument_not_detected:
  assumes "list_all is_space ws1" and "list_all is_space ws2"
      and "\<not> is_space c" and "c \<noteq> CHR 0x29" and "\<not> is_quote c"
      and "\<not> (c = CHR ''f'' \<and> arg \<noteq> [] \<and> is_quote (hd arg))"
  shows "match_input (''input'' @ ws1 @ ''('' @ ws2 @ c # arg) = None
       \<and> length pre \<notin> fst ` set (detect_spans 0 (pre @ ''input'' @ ws1 @ ''('' @ ws2 @ c # arg))
       \<and> detect_inputs (pre @ ''input'' @ ws1 @ ''('' @ ws2 @ c # arg)
           = map snd (detect_spans 0 (pre @ ''input'' @ ws1 @ ''('' @ ws2 @ c # arg))"
proof -
  let ?call = "''input'' @ ws1 @ ''('' @ ws2 @ c # arg"
  have d1: "dropWhile is_space (ws1 @ CHR 0x28 # ws2 @ c # arg) = CHR 0x28 # ws2 @ c # arg"
    using assms(1) by (simp add: dropWhile_spaces)
  have d2: "dropWhile is_space (ws2 @ c # arg) = c # arg"
    using assms(2,3) by (simp add: dropWhile_spaces)
  have l: "literal_arg (c # arg) = None"
    using assms(5,6) by (auto simp: literal_arg_def)
  have m: "match_input ?call = None"
    using assms(4) by (simp add: match_input_def d1 d2 l)
  have "length pre \<notin> fst ` set (detect_spans 0 (pre @ ?call))"
  proof
    assume "length pre \<in> fst ` set (detect_spans 0 (pre @ ?call))"
    then obtain mm p where "(length pre, mm, p) \<in> set (detect_spans 0 (pre @ ?call))"
      by force
    from detect_spans_match [OF this] m show False by simp
  qed
  with m show ?thesis by (simp add: detect_inputs_def detect_spans_inputs)
qed

theorem non_literal_argument_not_detected_witness:
  "list_all is_space [] \<and> \<not> is_space CHR ''p'' \<and> \<not> is_quote CHR ''p''
   \<and> match_input ''input(prompt)'' = None
   \<and> length ''name = '' \<notin> fst ` set (detect_spans 0 ''name = input(prompt)'')"
proof -
  have a: "list_all is_space []" by simp
  have b: "\<not> is_space CHR ''p''" by (simp add: is_space_def)
  have c: "CHR ''p'' \<noteq> CHR 0x29" by simp
  have d: "\<not> is_quote CHR ''p''" by (simp add: is_quote_def)
  have e: "\<not> (CHR ''p'' = CHR ''f'' \<and> ''rompt)'' \<noteq> [] \<and> is_quote (hd ''rompt)''))" by simp
  from non_literal_argument_not_detected [OF a a b c d e, of "''name = ''"] a b d
  show ?thesis by simp
qed

section \<open>Properties of the input resolver\<close>

lemma replace_char_append:
  "replace_char old new (xs @ ys) = replace_char old new xs @ replace_char old new ys"
  by (induction xs) auto

lemma escape_value_chars: "escape_value v = concat (map esc_char v)"
proof -
  have 1: "replace_char backslash [backslash, backslash] v
             = concat (map (\<lambda>c. if c = backslash then [backslash, backslash] else [c]) v)"
    by (induction v) auto
  have 2: "replace_char dquote [backslash, dquote]
             (concat (map (\<lambda>c. if c = backslash then [backslash, backslash] else [c]) v))
           = concat (map esc_char v)"
    by (induction v) (auto simp: replace_char_append esc_char_def backslash_def dquote_def)
  show ?thesis by (simp add: escape_value_def 1 2)
qed

lemma replace_first_absent:
  "(\<And>j. j \<le> length s \<Longrightarrow> \<not> prefix old (drop j s)) \<Longrightarrow> replace_first old new s = s"
proof (induction s)
  case Nil
  from Nil [of 0] show ?case by simp
next
  case (Cons c cs)
  from Cons.prems [of 0] have "\<not> prefix old (c # cs)" by simp
  moreover have "replace_first old new cs = cs"
  proof (rule Cons.IH)
    fix j assume "j \<le> length cs"
    then show "\<not> prefix old (drop j cs)" using Cons.prems [of "Suc j"] by simp
  qed
  ultimately show ?case by simp
qed

lemma replace_first_at:
  "(\<And>j. j < length pre \<Longrightarrow> \<not> prefix old (drop j (pre @ old @ post))) \<Longrightarrow>
     replace_first old new (pre @ old @ post) = pre @ new @ post"
proof (induction pre)
  case Nil
  show ?case
  proof (cases "old @ post")
    case Nil
    then show ?thesis by simp
  next
    case (Cons a list)
    have "prefix old (old @ post)" by simp
    with Cons have "replace_first old new (old @ post) = new @ drop (length old) (old @ post)"
      by (metis replace_first.simps(2))
    then show ?thesis by simp
  qed
next
  case (Cons c pre)
  from Cons.prems [of 0] have "\<not> prefix old (c # pre @ old @ post)" by simp
  moreover have "replace_first old new (pre @ old @ post) = pre @ new @ post"
  proof (rule Cons.IH)
    fix j assume "j < length pre"
    then show "\<not> prefix old (drop j (pre @ old @ post))" using Cons.prems [of "Suc j"] by simp
  qed
  ultimately show ?case by simp
qed

lemma first_site_replaced:
  assumes "detect_spans 0 code = (i, m, p) # sites"
  shows "replace_first m new code = take i code @ new @ drop (i + length m) code"
proof -
  from detect_spans_first [OF assms] obtain g rest where
    none: "\<forall>j < i. match_input (drop j code) = None" and
    mi: "match_input (drop i code) = Some (m, g, rest)" by auto
  from match_input_full [OF mi] have d: "drop i code = m @ rest" .
  have i: "i \<le> length code"
  proof (rule ccontr)
    assume "\<not> i \<le> length code"
    then have "drop i code = []" by simp
    with mi show False by (simp add: match_input_def)
  qed
  have code: "code = take i code @ m @ rest" using d by (metis append_take_drop_id)
  have rest: "drop (i + length m) code = rest"
    using d by (metis add.commute append_eq_conv_conj drop_drop)
  have "replace_first m new (take i code @ m @ rest) = take i code @ new @ rest"
  proof (rule replace_first_at)
    fix j assume "j < length (take i code)"
    with i have j: "j < i" by simp
    show "\<not> prefix m (drop j (take i code @ m @ rest))"
    proof
      assume "prefix m (drop j (take i code @ m @ rest))"
      with code have "prefix m (drop j code)" by simp
      then obtain r' where "drop j code = m @ r'" by (auto simp: prefix_def)
      with match_input_stable [OF mi, of r'] have "match_input (drop j code) \<noteq> None" by simp
      with none j show False by simp
    qed
  qed
  with code rest show ?thesis by simp
qed

lemma detect_inputs_spans: "detect_inputs code = map snd (detect_spans 0 code)"
  by (simp add: detect_inputs_def detect_spans_inputs)






section \<open>Properties of saving code\<close>

text \<open>
  \<^verbatim>\<open>save_code\<close> returns a pair in every case.  When its flag is True, a read of the path
  gives back the code and \<^verbatim>\<open>os.makedirs\<close> has returned for the directory of the path; when
  its flag is False, the message is the text of the exception of one of the two calls.
\<close>

lemma save_code_written:
  "fst (fst (save_code W code filepath tr)) \<Longrightarrow>
     file_content (snd (save_code W code filepath tr)) filepath = Some code
     \<and> MadeDirs (os_path_dirname filepath) \<in> set (snd (save_code W code filepath tr))"
  by (auto simp: save_code_def file_content_def touches_def Let_def split: option.splits)

lemma save_code_failure:
  "\<not> fst (fst (save_code W code filepath tr)) \<Longrightarrow>
     (os_makedirs W tr (os_path_dirname filepath) = Some (snd (fst (save_code W code filepath tr)))
      \<or> open_write W (tr @ [MadeDirs (os_path_dirname filepath)]) filepath code
           = Some (snd (fst (save_code W code filepath tr))))"
  by (auto simp: save_code_def Let_def split: option.splits)

text \<open>
  C9.  For a destination with no directory part, such as \<^verbatim>\<open>out.py\<close>,
  \<^verbatim>\<open>os.path.dirname\<close> is the empty string and \<^verbatim>\<open>os.makedirs("")\<close> raises: in every
  world \<^verbatim>\<open>save_code\<close> returns False with that message and writes nothing, so a read of
  the destination does not return the code.
\<close>

theorem save_code_bare_filename:
  "save_code W code ''out.py'' tr
     = ((False, ''[Errno 2] No such file or directory: '' @ [CHR 0x27, CHR 0x27]), tr)"
proof -
  have "os_path_dirname ''out.py'' = []" by code_simp
  then show ?thesis by (simp add: save_code_def os_makedirs_def)
qed


section \<open>Properties of the repair loop\<close>

lemma ask_all_answers:
  "\<forall>tr p. \<exists>v. cb tr p = Some v \<Longrightarrow>
     \<exists>vals asks. ask_all cb inputs vs tr = (Some vals, tr @ asks) \<and> list_all is_Asked asks"
proof (induction inputs arbitrary: vs tr)
  case Nil
  then show ?case by simp
next
  case (Cons a inputs)
  obtain m p where a: "a = (m, p)" by (cases a)
  from Cons.prems obtain v where v: "cb tr p = Some v" by blast
  from Cons.IH [OF Cons.prems, of "vs @ [v]" "tr @ [Asked p (Some v)]"] obtain vals asks where
    "ask_all cb inputs (vs @ [v]) (tr @ [Asked p (Some v)]) = (Some vals, (tr @ [Asked p (Some v)]) @ asks)"
    "list_all is_Asked asks" by blast
  then have "ask_all cb (a # inputs) vs tr = (Some vals, tr @ (Asked p (Some v) # asks))
             \<and> list_all is_Asked (Asked p (Some v) # asks)"
    using a v by simp
  then show ?case by blast
qed

lemma resolve_inputs_no_cancel:
  assumes "never_cancels ex"
  shows "\<exists>code' asks. resolve_inputs ex code input_data tr = (Code code', tr @ asks)
                      \<and> list_all is_Asked asks"
proof (cases "input_callback ex")
  case None
  then have "resolve_inputs ex code input_data tr = (Code code, tr @ [])"
    by (simp add: resolve_inputs_def)
  moreover have "list_all is_Asked []" by simp
  ultimately show ?thesis by blast
next
  case (Some cb)
  with assms have cb: "\<forall>tr p. \<exists>v. cb tr p = Some v" by (simp add: never_cancels_def)
  show ?thesis
  proof (cases "detect_inputs code \<noteq> [] \<and> input_data = None")
    case True
    from ask_all_answers [OF cb, of "detect_inputs code" "[]" tr] obtain vals asks where
      "ask_all cb (detect_inputs code) [] tr = (Some vals, tr @ asks)" "list_all is_Asked asks"
      by blast
    with Some True show ?thesis by (auto simp: resolve_inputs_def)
  next
    case False
    with Some have "resolve_inputs ex code input_data tr = (Code code, tr @ [])"
      by (auto simp: resolve_inputs_def)
    moreover have "list_all is_Asked []" by simp
  ultimately show ?thesis by blast
  qed
qed

lemma execute_failing:
  assumes "always_nonzero_exit W" and "always_writes W" and "never_cancels ex"
  shows "\<exists>r ex' new. execute W ex code None tr = (Inr r, ex', tr @ new) \<and> \<not> fst r
           \<and> never_cancels ex'
           \<and> length (filter is_Ran new) = 1 \<and> filter is_PrintedResult new = []
           \<and> filter is_Posted new = [] \<and> filter is_Printed new = []"
proof -
  let ?ex1 = "ex\<lparr>last_code := Some code\<rparr>"
  have nc: "never_cancels ?ex1" using assms(3) by (simp add: never_cancels_def)
  from resolve_inputs_no_cancel [OF nc, of code None tr] obtain code' asks where
    r: "resolve_inputs ?ex1 code None tr = (Code code', tr @ asks)" and a: "list_all is_Asked asks"
    by blast
  let ?tr2 = "tr @ asks @ [Wrote (code_file_of ex) code']"
  from assms(1) obtain rc out err where
    p: "subprocess_run W ?tr2 [python_path ex, code_file_of ex] (work_dir ex) None (safe_env W)
          (timeout ex) = Completed rc out err" and rc: "rc \<noteq> 0"
    unfolding always_nonzero_exit_def by metis
  have w: "open_write W (tr @ asks) (code_file_of ex) code' = None"
    using assms(2) by (simp add: always_writes_def)
  let ?new = "asks @ [Wrote (code_file_of ex) code',
                       Ran [python_path ex, code_file_of ex] (work_dir ex) None (safe_env W)]"
  have f: "\<And>P. (\<And>a b. \<not> P (Asked a b)) \<Longrightarrow> filter P asks = []"
    using a by (induction asks) (auto simp: is_Asked_def)
  have "execute W ex code None tr =
          (Inr (rc = 0, out, err,
                time_time W (tr @ ?new) - time_time W ?tr2),
           ?ex1\<lparr>last_output := Some out, last_error := Some err, last_returncode := Some rc\<rparr>,
           tr @ ?new)"
    using r w p by (simp add: execute_def run_code_def Let_def)
  moreover have "never_cancels (?ex1\<lparr>last_output := Some out, last_error := Some err,
                                    last_returncode := Some rc\<rparr>)"
    using assms(3) by (simp add: never_cancels_def)
  moreover have "length (filter is_Ran ?new) = 1" "filter is_PrintedResult ?new = []"
    "filter is_Posted ?new = []" "filter is_Printed ?new = []"
    by (simp_all add: f)
  ultimately show ?thesis using rc
    by (intro exI [where x = "(rc = 0, out, err, time_time W (tr @ ?new) - time_time W ?tr2)"]
              exI [where x = "?ex1\<lparr>last_output := Some out, last_error := Some err,
                                     last_returncode := Some rc\<rparr>"]
              exI [where x = "?new"]) simp
qed


declare repair_loop.simps [simp del]

lemma chat_answered:
  "post_chat W tr model (chat_messages prompt conv) = Answered resp \<Longrightarrow>
     chat W prompt model conv tr = ((True, resp), tr @ [Posted model (chat_messages prompt conv)])"
  by (simp add: chat_def)

lemma repair_loop_all_fail:
  assumes W: "always_nonzero_exit W" "always_writes W" "always_generates W"
  shows "\<not> fst (cur_result v) \<Longrightarrow> fix_attempt v \<le> mx \<Longrightarrow> never_cancels (main_executor v) \<Longrightarrow>
         tr \<noteq> [] \<Longrightarrow> last tr = PrintedResult (cur_result v) \<Longrightarrow> mx - fix_attempt v = k \<Longrightarrow>
         \<exists>v' new. repair_loop W model mx v tr = (Condition_false, v', tr @ new)
           \<and> fix_attempt v' = mx \<and> \<not> fst (cur_result v')
           \<and> length (filter is_Ran new) = k
           \<and> length (filter is_PrintedResult new) = k
           \<and> length (filter is_Posted new) = k
           \<and> length (conversation v') = length (conversation v) + 2 * k
           \<and> last (tr @ new) = PrintedResult (cur_result v')
           \<and> never_cancels (main_executor v')"
proof (induction k arbitrary: v tr)
  case 0
  then have "repair_loop W model mx v tr = (Condition_false, v, tr @ [])"
    by (subst repair_loop.simps) simp
  with 0 show ?case by (intro exI [where x = v] exI [where x = "[]"]) simp
next
  case (Suc k)
  let ?v1 = "v\<lparr>fix_attempt := fix_attempt v + 1\<rparr>"
  let ?tr1 = "tr @ [Printed (auto_fix_line (fix_attempt v + 1) mx)]"
  let ?prompt = "make_fix_prompt (fst (snd (snd (cur_result v)))) (cur_code v)"
  let ?msgs = "chat_messages ?prompt (conversation v)"
  from Suc.prems have lt: "fix_attempt v < mx" by arith
  from W(3) obtain resp where
    resp: "post_chat W ?tr1 model ?msgs = Answered resp" and code: "truthy (extract_code resp)"
    unfolding always_generates_def by metis
  let ?tr2 = "?tr1 @ [Posted model ?msgs]"
  have ch: "chat W ?prompt model (conversation v) ?tr1 = ((True, resp), ?tr2)"
    using resp by (rule chat_answered)
  let ?code = "the (extract_code resp)"
  let ?v2 = "?v1\<lparr>cur_code := ?code, main_last_code := extract_code resp,
                   conversation := conversation v @ [(''user'', ?prompt), (''assistant'', resp)]\<rparr>"
  let ?tr3 = "?tr2 @ [Printed ''Fixed code:'', PrintedCode ?code, Printed ''Re-executing...'']"
  from execute_failing [OF W(1,2), of "main_executor v" ?code ?tr3] Suc.prems(3)
  obtain r ex' new where
    ex: "execute W (main_executor v) ?code None ?tr3 = (Inr r, ex', ?tr3 @ new)" and
    r: "\<not> fst r" and nc: "never_cancels ex'" and
    cnt: "length (filter is_Ran new) = 1" "filter is_PrintedResult new = []"
         "filter is_Posted new = []" "filter is_Printed new = []"
    by blast
  let ?v4 = "?v2\<lparr>main_executor := ex', cur_result := r\<rparr>"
  let ?tr4 = "(?tr3 @ new) @ [PrintedResult r]"
  have step: "repair_loop W model mx v tr = repair_loop W model mx ?v4 ?tr4"
    using Suc.prems(1) lt ch code ex
    by (subst repair_loop.simps) (simp add: Let_def)
  have "\<exists>v' new'. repair_loop W model mx ?v4 ?tr4 = (Condition_false, v', ?tr4 @ new')
           \<and> fix_attempt v' = mx \<and> \<not> fst (cur_result v')
           \<and> length (filter is_Ran new') = k
           \<and> length (filter is_PrintedResult new') = k
           \<and> length (filter is_Posted new') = k
           \<and> length (conversation v') = length (conversation ?v4) + 2 * k
           \<and> last (?tr4 @ new') = PrintedResult (cur_result v')
           \<and> never_cancels (main_executor v')"
  proof (rule Suc.IH)
    show "\<not> fst (cur_result ?v4)" using r by simp
    show "fix_attempt ?v4 \<le> mx" using lt by simp
    show "never_cancels (main_executor ?v4)" using nc by simp
    show "?tr4 \<noteq> []" by simp
    show "last ?tr4 = PrintedResult (cur_result ?v4)" by simp
    show "mx - fix_attempt ?v4 = k" using Suc.prems(6) by simp
  qed
  then obtain v' new' where
    fin: "repair_loop W model mx ?v4 ?tr4 = (Condition_false, v', ?tr4 @ new')"
      "fix_attempt v' = mx" "\<not> fst (cur_result v')"
      "length (filter is_Ran new') = k" "length (filter is_PrintedResult new') = k"
      "length (filter is_Posted new') = k"
      "length (conversation v') = length (conversation ?v4) + 2 * k"
      "last (?tr4 @ new') = PrintedResult (cur_result v')"
      "never_cancels (main_executor v')" by blast
  let ?new = "[Printed (auto_fix_line (fix_attempt v + 1) mx), Posted model ?msgs,
               Printed ''Fixed code:'', PrintedCode ?code, Printed ''Re-executing...'']
              @ new @ [PrintedResult r] @ new'"
  have t: "?tr4 @ new' = tr @ ?new" by simp
  show ?case
  proof (intro exI [where x = v'] exI [where x = "?new"] conjI)
    show "repair_loop W model mx v tr = (Condition_false, v', tr @ ?new)"
      using step fin(1) t by simp
    show "fix_attempt v' = mx" by (rule fin(2))
    show "\<not> fst (cur_result v')" by (rule fin(3))
    show "length (filter is_Ran ?new) = Suc k" using cnt fin(4) by simp
    show "length (filter is_PrintedResult ?new) = Suc k" using cnt fin(5) by simp
    show "length (filter is_Posted ?new) = Suc k" using cnt fin(6) by simp
    show "length (conversation v') = length (conversation v) + 2 * Suc k" using fin(7) by simp
    show "last (tr @ ?new) = PrintedResult (cur_result v')" using fin(8) t by simp
    show "never_cancels (main_executor v')" by (rule fin(9))
  qed
qed


lemma handle_request_all_fail:
  assumes W: "always_nonzero_exit W" "always_writes W" "always_generates W"
      and nc: "never_cancels (main_executor v)"
  shows "\<exists>v' new. handle_request W model mx True user_input v tr
             = (None, v', tr @ new @ [Printed ''Max fix attempts reached.''])
           \<and> fix_attempt v' = mx \<and> \<not> fst (cur_result v')
           \<and> length (filter is_Ran new) = mx + 1
           \<and> length (filter is_PrintedResult new) = mx + 1
           \<and> length (filter is_Posted new) = mx + 1
           \<and> length (conversation v') = min (length (conversation v) + 2) 20 + 2 * mx
           \<and> last new = PrintedResult (cur_result v')
           \<and> never_cancels (main_executor v')"
proof -
  let ?msgs = "chat_messages user_input (conversation v)"
  from W(3) obtain resp where
    resp: "post_chat W tr model ?msgs = Answered resp" and code: "truthy (extract_code resp)"
    unfolding always_generates_def by metis
  let ?tr1 = "tr @ [Posted model ?msgs]"
  have ch: "chat W user_input model (conversation v) tr = ((True, resp), ?tr1)"
    using resp by (rule chat_answered)
  let ?ext = "conversation v @ [(''user'', user_input), (''assistant'', resp)]"
  let ?conv = "if length ?ext > 20 then drop (length ?ext - 20) ?ext else ?ext"
  let ?code = "the (extract_code resp)"
  let ?v2 = "v\<lparr>conversation := ?conv, main_last_code := extract_code resp, cur_code := ?code\<rparr>"
  let ?tr2 = "?tr1 @ [Printed (''Here'' @ [CHR 0x27] @ ''s the code:''), PrintedCode ?code,
                       Printed ''Executing...'']"
  from execute_failing [OF W(1,2) nc, of ?code ?tr2]
  obtain r ex' new where
    ex: "execute W (main_executor v) ?code None ?tr2 = (Inr r, ex', ?tr2 @ new)" and
    r: "\<not> fst r" and nc': "never_cancels ex'" and
    cnt: "length (filter is_Ran new) = 1" "filter is_PrintedResult new = []"
         "filter is_Posted new = []" "filter is_Printed new = []"
    by blast
  let ?v3 = "?v2\<lparr>main_executor := ex', cur_result := r, fix_attempt := 0\<rparr>"
  let ?tr3 = "(?tr2 @ new) @ [PrintedResult r]"
  have "\<exists>v' new'. repair_loop W model mx ?v3 ?tr3 = (Condition_false, v', ?tr3 @ new')
           \<and> fix_attempt v' = mx \<and> \<not> fst (cur_result v')
           \<and> length (filter is_Ran new') = mx
           \<and> length (filter is_PrintedResult new') = mx
           \<and> length (filter is_Posted new') = mx
           \<and> length (conversation v') = length (conversation ?v3) + 2 * mx
           \<and> last (?tr3 @ new') = PrintedResult (cur_result v')
           \<and> never_cancels (main_executor v')"
  proof (rule repair_loop_all_fail [OF W])
    show "\<not> fst (cur_result ?v3)" using r by simp
    show "fix_attempt ?v3 \<le> mx" by simp
    show "never_cancels (main_executor ?v3)" using nc' by simp
    show "?tr3 \<noteq> []" by simp
    show "last ?tr3 = PrintedResult (cur_result ?v3)" by simp
    show "mx - fix_attempt ?v3 = mx" by simp
  qed
  then obtain v' new' where
    fin: "repair_loop W model mx ?v3 ?tr3 = (Condition_false, v', ?tr3 @ new')"
      "fix_attempt v' = mx" "\<not> fst (cur_result v')"
      "length (filter is_Ran new') = mx" "length (filter is_PrintedResult new') = mx"
      "length (filter is_Posted new') = mx"
      "length (conversation v') = length (conversation ?v3) + 2 * mx"
      "last (?tr3 @ new') = PrintedResult (cur_result v')"
      "never_cancels (main_executor v')" by blast
  let ?new = "[Posted model ?msgs, Printed (''Here'' @ [CHR 0x27] @ ''s the code:''),
               PrintedCode ?code, Printed ''Executing...''] @ new @ [PrintedResult r] @ new'"
  have t: "?tr3 @ new' = tr @ ?new" by simp
  have hr: "handle_request W model mx True user_input v tr
              = (None, v', (?tr3 @ new') @ [Printed ''Max fix attempts reached.''])"
    using ch code ex fin(1,2,3)
    by (simp add: handle_request_def Let_def)
  have l: "last ?new = PrintedResult (cur_result v')"
  proof -
    have "?new \<noteq> []" by simp
    then have "last (tr @ ?new) = last ?new" by (rule last_appendR)
    with fin(8) t show ?thesis by simp
  qed
  have c: "length ?conv = min (length (conversation v) + 2) 20" by simp
  show ?thesis
  proof (intro exI [where x = v'] exI [where x = "?new"] conjI)
    show "handle_request W model mx True user_input v tr
            = (None, v', tr @ ?new @ [Printed ''Max fix attempts reached.''])"
      using hr t by simp
    show "fix_attempt v' = mx" by (rule fin(2))
    show "\<not> fst (cur_result v')" by (rule fin(3))
    show "length (filter is_Ran ?new) = mx + 1" using cnt fin(4) by simp
    show "length (filter is_PrintedResult ?new) = mx + 1" using cnt fin(5) by simp
    show "length (filter is_Posted ?new) = mx + 1" using cnt fin(6) by simp
    show "length (conversation v') = min (length (conversation v) + 2) 20 + 2 * mx"
      using fin(7) c by simp
    show "last ?new = PrintedResult (cur_result v')" by (rule l)
    show "never_cancels (main_executor v')" by (rule fin(9))
  qed
qed


lemma failing_world_props:
  "always_nonzero_exit failing_world" "always_writes failing_world"
  "always_generates failing_world"
proof -
  show "always_nonzero_exit failing_world"
    by (simp add: always_nonzero_exit_def failing_world_def steady_world_def)
  show "always_writes failing_world"
    by (simp add: always_writes_def failing_world_def steady_world_def)
  have "truthy (extract_code ''print(x)'')" by code_simp
  then show "always_generates failing_world"
    by (simp add: always_generates_def failing_world_def steady_world_def)
qed

lemma never_cancels_cli: "never_cancels (main_executor (initial_vars (cli_executor (\<lambda>tr p. Some v))))"
  by (simp add: never_cancels_def initial_vars_def cli_executor_def set_input_callback_def)

text \<open>
  C5.  Take a session in which every process runs to completion with a nonzero exit code,
  the code file can always be written, no input prompt is cancelled, and every chat
  request is answered with extractable code.  Handling one request with auto-execution on
  then ends without an exception: the attempt counter stands at \<open>max_fix\<close>, the last
  result is a failure, \<open>max_fix + 1\<close> processes were run and as many results printed,
  \<open>max_fix + 1\<close> chat requests were made (the first answer and \<open>max_fix\<close> repairs), the last
  line printed is the one about the attempts being used up, and the event before it is the
  print of the last result, which is also the result the loop variables still hold.
\<close>

theorem repair_loop_exhausts_attempts:
  assumes "always_nonzero_exit W" and "always_writes W" and "always_generates W"
      and "never_cancels (main_executor v)"
  shows "\<exists>v' new. handle_request W model max_fix True user_input v tr
             = (None, v', tr @ new @ [Printed ''Max fix attempts reached.''])
           \<and> fix_attempt v' = max_fix \<and> \<not> fst (cur_result v')
           \<and> length (filter is_Ran new) = max_fix + 1
           \<and> length (filter is_PrintedResult new) = max_fix + 1
           \<and> length (filter is_Posted new) = max_fix + 1
           \<and> last new = PrintedResult (cur_result v')"
  using handle_request_all_fail [OF assms, where model = model and mx = max_fix
          and user_input = user_input and tr = tr] by blast

theorem repair_loop_exhausts_attempts_witness:
  "\<exists>v' new. handle_request failing_world ''qwen3-coder-v4'' 3 True ''plot x''
               (initial_vars (cli_executor (\<lambda>tr p. Some ''1''))) []
             = (None, v', [] @ new @ [Printed ''Max fix attempts reached.''])
           \<and> fix_attempt v' = 3 \<and> \<not> fst (cur_result v')
           \<and> length (filter is_Ran new) = 3 + 1
           \<and> length (filter is_PrintedResult new) = 3 + 1
           \<and> length (filter is_Posted new) = 3 + 1
           \<and> last new = PrintedResult (cur_result v')"
  by (rule repair_loop_exhausts_attempts [OF failing_world_props never_cancels_cli])

text \<open>
  C8.  The cap of lines 263 and 264 is not applied to the two messages the repair loop
  appends.  With the default of three repair attempts, three requests in a row whose
  code keeps failing leave 24 messages in the conversation: 8 after the first, 16 after
  the second, 18 when the third is answered, and 6 more from its repairs.
\<close>

theorem conversation_exceeds_bound:
  "length (conversation (fst (snd (run_requests failing_world ''qwen3-coder-v4'' 3 True
             [''first'', ''second'', ''third'']
             (initial_vars (cli_executor (\<lambda>tr p. Some ''1''))) [])))) = 24"
proof -
  let ?v0 = "initial_vars (cli_executor (\<lambda>tr p. Some ''1''))"
  let ?m = "''qwen3-coder-v4''"
  note H = handle_request_all_fail [OF failing_world_props]
  from H [OF never_cancels_cli [of "''1''"], where model = ?m and mx = 3
            and user_input = "''first''" and tr = "[]"] obtain v1 tr1 where
    1: "handle_request failing_world ?m 3 True ''first'' ?v0 [] = (None, v1, tr1)"
       "length (conversation v1) = min (length (conversation ?v0) + 2) 20 + 2 * 3"
       "never_cancels (main_executor v1)" by blast
  from H [OF 1(3), where model = ?m and mx = 3 and user_input = "''second''" and tr = tr1] obtain v2 tr2 where
    2: "handle_request failing_world ?m 3 True ''second'' v1 tr1 = (None, v2, tr2)"
       "length (conversation v2) = min (length (conversation v1) + 2) 20 + 2 * 3"
       "never_cancels (main_executor v2)" by blast
  from H [OF 2(3), where model = ?m and mx = 3 and user_input = "''third''" and tr = tr2] obtain v3 tr3 where
    3: "handle_request failing_world ?m 3 True ''third'' v2 tr2 = (None, v3, tr3)"
       "length (conversation v3) = min (length (conversation v2) + 2) 20 + 2 * 3"
       by blast
  have "run_requests failing_world ?m 3 True [''first'', ''second'', ''third''] ?v0 []
          = (None, v3, tr3)"
    using 1(1) 2(1) 3(1) by simp
  moreover have "length (conversation v3) = 24"
    using 1(2) 2(2) 3(2) by (simp add: initial_vars_def)
  ultimately show ?thesis by simp
qed


lemma execute_extends: "\<exists>new. snd (snd (execute W ex code inp tr)) = tr @ new"
proof -
  let ?ex1 = "ex\<lparr>last_code := Some code\<rparr>"
  obtain res tr1 where r: "resolve_inputs ?ex1 code inp tr = (res, tr1)"
    by (cases "resolve_inputs ?ex1 code inp tr")
  have "\<exists>asks. tr1 = tr @ asks"
  proof (cases "input_callback ?ex1")
    case None
    with r show ?thesis by (simp add: resolve_inputs_def)
  next
    case (Some cb)
    show ?thesis
    proof (cases "detect_inputs code \<noteq> [] \<and> inp = None")
      case True
      obtain a tr' where a: "ask_all cb (detect_inputs code) [] tr = (a, tr')"
        by (cases "ask_all cb (detect_inputs code) [] tr")
      from ask_all_trace [OF a] obtain asks where "tr' = tr @ asks" by blast
      moreover from r Some True a have "tr1 = tr'"
        by (cases a) (auto simp: resolve_inputs_def)
      ultimately show ?thesis by blast
    next
      case False
      with r Some show ?thesis by (auto simp: resolve_inputs_def)
    qed
  qed
  then obtain asks where t: "tr1 = tr @ asks" by blast
  show ?thesis
  proof (cases res)
    case Cancel
    with r t show ?thesis by (simp add: execute_def)
  next
    case (Code code')
    with r t show ?thesis
      by (auto simp: execute_def run_code_def Let_def split: option.splits proc_outcome.splits)
  qed
qed

lemma chat_trace: "snd (chat W prompt model conv tr) = tr @ [Posted model (chat_messages prompt conv)]"
  by (simp add: chat_def Let_def split: http_outcome.splits)

lemma repair_loop_extends:
  "mx - fix_attempt v = k \<Longrightarrow> \<exists>new. snd (snd (repair_loop W model mx v tr)) = tr @ new"
proof (induction k arbitrary: v tr)
  case 0
  then have "repair_loop W model mx v tr = (Condition_false, v, tr)"
    by (subst repair_loop.simps) simp
  then show ?case by simp
next
  case (Suc k)
  show ?case
  proof (cases "\<not> fst (cur_result v) \<and> fix_attempt v < mx")
    case False
    then have "repair_loop W model mx v tr = (Condition_false, v, tr)"
      by (subst repair_loop.simps) auto
    then show ?thesis by simp
  next
    case True
    let ?v1 = "v\<lparr>fix_attempt := fix_attempt v + 1\<rparr>"
    let ?tr1 = "tr @ [Printed (auto_fix_line (fix_attempt v + 1) mx)]"
    let ?prompt = "make_fix_prompt (fst (snd (snd (cur_result v)))) (cur_code v)"
    let ?fix = "chat W ?prompt model (conversation v) ?tr1"
    let ?tr2 = "?tr1 @ [Posted model (chat_messages ?prompt (conversation v))]"
    have tr2: "snd ?fix = ?tr2" by (rule chat_trace)
    let ?resp = "snd (fst ?fix)"
    let ?code = "the (extract_code ?resp)"
    let ?v2 = "?v1\<lparr>cur_code := ?code, main_last_code := extract_code ?resp,
                   conversation := conversation v @ [(''user'', ?prompt), (''assistant'', ?resp)]\<rparr>"
    let ?tr3 = "?tr2 @ [Printed ''Fixed code:'', PrintedCode ?code, Printed ''Re-executing...'']"
    let ?run = "execute W (main_executor v) ?code None ?tr3"
    from execute_extends obtain new where new: "snd (snd ?run) = ?tr3 @ new" by blast
    show ?thesis
    proof (cases "fst (fst ?fix) \<and> truthy (extract_code ?resp)")
      case False
      with True tr2 show ?thesis
        by (subst repair_loop.simps) (auto simp: Let_def)
    next
      case ok: True
      show ?thesis
      proof (cases "fst ?run")
        case (Inl err)
        with True ok tr2 new show ?thesis
          by (subst repair_loop.simps) (simp add: Let_def)
      next
        case (Inr r)
        let ?v4 = "?v2\<lparr>main_executor := fst (snd ?run), cur_result := r\<rparr>"
        have "mx - fix_attempt ?v4 = k" using Suc.prems by simp
        from Suc.IH [OF this, of "snd (snd ?run) @ [PrintedResult r]"] obtain new' where
          "snd (snd (repair_loop W model mx ?v4 (snd (snd ?run) @ [PrintedResult r])))
             = (snd (snd ?run) @ [PrintedResult r]) @ new'" by blast
        moreover have "repair_loop W model mx v tr
               = repair_loop W model mx ?v4 (snd (snd ?run) @ [PrintedResult r])"
          using True ok tr2 Inr by (subst repair_loop.simps) (simp add: Let_def)
        ultimately show ?thesis using new by simp
      qed
    qed
  qed
qed


lemma repair_loop_after_failure:
  fixes v :: main_vars and tr :: trace and mx :: nat
  assumes f: "\<not> fst (cur_result v)" and lt: "fix_attempt v < mx"
  defines "tr1 \<equiv> tr @ [Printed (auto_fix_line (fix_attempt v + 1) mx)]"
      and "msgs \<equiv> chat_messages (make_fix_prompt (fst (snd (snd (cur_result v)))) (cur_code v))
                     (conversation v)"
  shows "\<exists>rest. snd (snd (repair_loop W model mx v tr)) = tr1 @ [Posted model msgs] @ rest"
    and "post_chat W tr1 model msgs = Answered resp \<Longrightarrow> truthy (extract_code resp) \<Longrightarrow>
         prefix (snd (snd (execute W (main_executor v) (the (extract_code resp)) None
                   (tr1 @ [Posted model msgs, Printed ''Fixed code:'',
                           PrintedCode (the (extract_code resp)), Printed ''Re-executing...'']))))
                (snd (snd (repair_loop W model mx v tr)))"
proof -
  let ?v1 = "v\<lparr>fix_attempt := fix_attempt v + 1\<rparr>"
  let ?prompt = "make_fix_prompt (fst (snd (snd (cur_result v)))) (cur_code v)"
  let ?fix = "chat W ?prompt model (conversation v) tr1"
  let ?tr2 = "tr1 @ [Posted model msgs]"
  have tr2: "snd ?fix = ?tr2" unfolding msgs_def by (rule chat_trace)
  let ?resp = "snd (fst ?fix)"
  let ?code = "the (extract_code ?resp)"
  let ?v2 = "?v1\<lparr>cur_code := ?code, main_last_code := extract_code ?resp,
                 conversation := conversation v @ [(''user'', ?prompt), (''assistant'', ?resp)]\<rparr>"
  let ?tr3 = "?tr2 @ [Printed ''Fixed code:'', PrintedCode ?code, Printed ''Re-executing...'']"
  let ?run = "execute W (main_executor v) ?code None ?tr3"
  from execute_extends obtain new where new: "snd (snd ?run) = ?tr3 @ new" by blast
  have both: "(\<exists>rest. snd (snd (repair_loop W model mx v tr)) = ?tr2 @ rest)
               \<and> (fst (fst ?fix) \<and> truthy (extract_code ?resp) \<longrightarrow>
                    prefix (snd (snd ?run)) (snd (snd (repair_loop W model mx v tr))))"
  proof (cases "fst (fst ?fix) \<and> truthy (extract_code ?resp)")
    case False
    with f lt tr2 show ?thesis
      unfolding tr1_def by (subst repair_loop.simps) (auto simp: Let_def)
  next
    case ok: True
    show ?thesis
    proof (cases "fst ?run")
      case (Inl err)
      with f lt ok tr2 have "snd (snd (repair_loop W model mx v tr)) = snd (snd ?run)"
        unfolding tr1_def by (subst repair_loop.simps) (simp add: Let_def)
      with new show ?thesis by simp
    next
      case (Inr r)
      let ?v4 = "?v2\<lparr>main_executor := fst (snd ?run), cur_result := r\<rparr>"
      from repair_loop_extends [OF refl, of W model mx ?v4 "snd (snd ?run) @ [PrintedResult r]"]
      obtain new' where
        "snd (snd (repair_loop W model mx ?v4 (snd (snd ?run) @ [PrintedResult r])))
           = (snd (snd ?run) @ [PrintedResult r]) @ new'" by blast
      moreover have "repair_loop W model mx v tr
             = repair_loop W model mx ?v4 (snd (snd ?run) @ [PrintedResult r])"
        using f lt ok tr2 Inr unfolding tr1_def by (subst repair_loop.simps) (simp add: Let_def)
      ultimately have "snd (snd (repair_loop W model mx v tr))
                         = snd (snd ?run) @ PrintedResult r # new'" by simp
      with new show ?thesis by simp
    qed
  qed
  from both show "\<exists>rest. snd (snd (repair_loop W model mx v tr)) = tr1 @ [Posted model msgs] @ rest"
    by simp
  assume a: "post_chat W tr1 model msgs = Answered resp" and t: "truthy (extract_code resp)"
  from a have "?fix = ((True, resp), ?tr2)" unfolding msgs_def by (rule chat_answered)
  with both t show "prefix (snd (snd (execute W (main_executor v) (the (extract_code resp)) None
                   (tr1 @ [Posted model msgs, Printed ''Fixed code:'',
                           PrintedCode (the (extract_code resp)), Printed ''Re-executing...'']))))
                (snd (snd (repair_loop W model mx v tr)))"
    by simp
qed

text \<open>
  C4.  As stated the claim fails.  With a callback that cancels every prompt and a
  generator that keeps answering with code that asks for input, one request leads to four
  execution attempts, each cancelled, and the second chat request is the repair prompt
  built from the stderr of the first cancelled attempt.
\<close>

theorem cancelled_session_continues:
  "filter is_Asked (snd (snd (handle_request cancel_world ''qwen3-coder-v4'' 3 True ''ask my name''
       (initial_vars (cli_executor (\<lambda>tr p. None))) [])))
     = replicate 4 (Asked ''Enter value'' None)
   \<and> take 2 (posted_prompts (snd (snd (handle_request cancel_world ''qwen3-coder-v4'' 3 True
       ''ask my name'' (initial_vars (cli_executor (\<lambda>tr p. None))) []))))
     = [''ask my name'', make_fix_prompt ''Cancelled by user'' ''x = input()'']"
  by code_simp


text \<open>
  C4, amended.  After an attempt whose result is the cancel tuple, the loop goes on as
  after any failure.  While the attempt counter is below \<open>max_fix\<close> the next two events
  are the line announcing the repair and the chat request with the prompt built from
  \<^verbatim>\<open>Cancelled by user\<close> and the current code; when that request is answered with
  extractable code, the events of the next \<^verbatim>\<open>execute\<close> follow.  When the counter has reached
  \<open>max_fix\<close> the loop ends at once, the variables and the trace unchanged.
\<close>

theorem cancelled_attempt_is_repaired:
  assumes "cur_result v = (False, [], ''Cancelled by user'', 0)"
  shows "(fix_attempt v < max_fix \<longrightarrow>
           (\<exists>rest. snd (snd (repair_loop W model max_fix v tr))
              = tr @ [Printed (auto_fix_line (fix_attempt v + 1) max_fix),
                      Posted model (chat_messages
                        (make_fix_prompt ''Cancelled by user'' (cur_code v)) (conversation v))]
                   @ rest))
       \<and> (\<forall>resp. fix_attempt v < max_fix
             \<and> post_chat W (tr @ [Printed (auto_fix_line (fix_attempt v + 1) max_fix)]) model
                 (chat_messages (make_fix_prompt ''Cancelled by user'' (cur_code v))
                    (conversation v)) = Answered resp
             \<and> truthy (extract_code resp) \<longrightarrow>
             prefix (snd (snd (execute W (main_executor v) (the (extract_code resp)) None
                       (tr @ [Printed (auto_fix_line (fix_attempt v + 1) max_fix),
                              Posted model (chat_messages
                                (make_fix_prompt ''Cancelled by user'' (cur_code v))
                                (conversation v)),
                              Printed ''Fixed code:'', PrintedCode (the (extract_code resp)),
                              Printed ''Re-executing...'']))))
                    (snd (snd (repair_loop W model max_fix v tr))))
       \<and> (max_fix \<le> fix_attempt v \<longrightarrow>
            repair_loop W model max_fix v tr = (Condition_false, v, tr))"
proof (intro conjI allI impI)
  assume lt: "fix_attempt v < max_fix"
  from assms have f: "\<not> fst (cur_result v)" by simp
  from repair_loop_after_failure(1) [OF f lt, of W model tr] assms
  show "\<exists>rest. snd (snd (repair_loop W model max_fix v tr))
              = tr @ [Printed (auto_fix_line (fix_attempt v + 1) max_fix),
                      Posted model (chat_messages
                        (make_fix_prompt ''Cancelled by user'' (cur_code v)) (conversation v))]
                   @ rest"
    by simp
next
  fix resp
  assume a: "fix_attempt v < max_fix
             \<and> post_chat W (tr @ [Printed (auto_fix_line (fix_attempt v + 1) max_fix)]) model
                 (chat_messages (make_fix_prompt ''Cancelled by user'' (cur_code v))
                    (conversation v)) = Answered resp
             \<and> truthy (extract_code resp)"
  from assms have f: "\<not> fst (cur_result v)" by simp
  from a assms repair_loop_after_failure(2) [OF f, of max_fix W tr model resp]
  show "prefix (snd (snd (execute W (main_executor v) (the (extract_code resp)) None
                       (tr @ [Printed (auto_fix_line (fix_attempt v + 1) max_fix),
                              Posted model (chat_messages
                                (make_fix_prompt ''Cancelled by user'' (cur_code v))
                                (conversation v)),
                              Printed ''Fixed code:'', PrintedCode (the (extract_code resp)),
                              Printed ''Re-executing...'']))))
                    (snd (snd (repair_loop W model max_fix v tr)))"
    by simp
next
  assume "max_fix \<le> fix_attempt v"
  then show "repair_loop W model max_fix v tr = (Condition_false, v, tr)"
    by (subst repair_loop.simps) simp
qed

theorem cancelled_attempt_is_repaired_witness:
  "\<exists>rest. snd (snd (repair_loop cancel_world ''qwen3-coder-v4'' 3
               ((initial_vars (cli_executor (\<lambda>tr p. None)))
                  \<lparr>cur_code := ''x = input()'',
                   cur_result := (False, [], ''Cancelled by user'', 0)\<rparr>) []))
      = [] @ [Printed (auto_fix_line (0 + 1) 3),
              Posted ''qwen3-coder-v4'' (chat_messages
                (make_fix_prompt ''Cancelled by user'' ''x = input()'') [])]
           @ rest"
proof -
  let ?v = "(initial_vars (cli_executor (\<lambda>tr p. None)))
                  \<lparr>cur_code := ''x = input()'',
                   cur_result := (False, [], ''Cancelled by user'', 0)\<rparr>"
  have c: "cur_result ?v = (False, [], ''Cancelled by user'', 0)" by simp
  have l: "fix_attempt ?v < 3" by (simp add: initial_vars_def)
  from cancelled_attempt_is_repaired [OF c, of 3 cancel_world "''qwen3-coder-v4''" "[]"] l
  show ?thesis by (simp add: initial_vars_def)
qed


end
